theory Spec2Isabelle
  imports
    Main
    "HOL-Library.Char_ord"
    "HOL-Library.List_Lexorder"
    "HOL-Library.Product_Lexorder"
    "HOL-Library.AList"
begin

section \<open>Strings as Python reads them\<close>

text \<open>
  A Python \<open>str\<close> is modelled as a \<open>string\<close> (a list of characters). The operations
  below are the ones the sources call: \<open>lower()\<close>, the \<open>in\<close> test on strings,
  \<open>strip()\<close>, \<open>startswith\<close> and \<open>split('=', 1)\<close>. A character stands for a code
  point below 256; \<open>lower\<close> and \<open>strip\<close> are Python's on that range (the capital
  letters of ASCII and of Latin-1, the white space of ASCII and the two of Latin-1). Code
  points from 256 on are not represented.
\<close>

definition py_lower :: "string \<Rightarrow> string" where
  "py_lower s =
     map (\<lambda>c. if (CHR ''A'' \<le> c \<and> c \<le> CHR ''Z'')
                 \<or> (CHR 0xC0 \<le> c \<and> c \<le> CHR 0xDE \<and> c \<noteq> CHR 0xD7)
              then char_of (of_char c + (32::nat)) else c) s"

text \<open>\<open>p in s\<close>: \<open>p\<close> occurs in \<open>s\<close> as a contiguous block.\<close>

fun py_in :: "string \<Rightarrow> string \<Rightarrow> bool" where
  "py_in p [] = (p = [])"
| "py_in p (c # cs) = (take (length p) (c # cs) = p \<or> py_in p cs)"

text \<open>The characters \<open>str.strip()\<close> removes: those for which \<open>str.isspace\<close> holds.\<close>

definition is_space :: "char \<Rightarrow> bool" where
  "is_space c =
     (c \<in> set [CHR 0x20, CHR 0x09, CHR 0x0A, CHR 0x0B, CHR 0x0C, CHR 0x0D,
                CHR 0x1C, CHR 0x1D, CHR 0x1E, CHR 0x1F, CHR 0x85, CHR 0xA0])"

definition py_strip :: "string \<Rightarrow> string" where
  "py_strip s = rev (dropWhile is_space (rev (dropWhile is_space s)))"

definition startswith :: "string \<Rightarrow> string \<Rightarrow> bool" where
  "startswith s p = (take (length p) s = p)"

section \<open>The tag classifier\<close>

text \<open>
  \<open>AUTO_TAG_PATTERNS\<close> is a dictionary literal; its iteration order is the order in
  which it is written, so it is an association list here. The table is the same in every
  copy of the program.
\<close>

definition AUTO_TAG_PATTERNS :: "(string \<times> string list) list" where
  "AUTO_TAG_PATTERNS =
     [(''File Upload'', [''file'', ''upload'', ''document'', ''doc'', ''attachment'',
                         ''image'', ''photo'', ''pdf'']),
      (''IDOR'', [''id'', ''user'', ''account'', ''profile'', ''uid'', ''userid'',
                  ''accountid'']),
      (''XSS'', [''search'', ''query'', ''q'', ''keyword'', ''message'', ''comment'',
                 ''text'', ''content'']),
      (''SQLi'', [''id'', ''sort'', ''order'', ''filter'', ''category'', ''type'']),
      (''Auth'', [''token'', ''session'', ''auth'', ''key'', ''api'', ''secret'',
                  ''password'', ''login'']),
      (''Redirect'', [''redirect'', ''url'', ''return'', ''next'', ''callback'',
                      ''continue'', ''returnurl'']),
      (''Path Traversal'', [''path'', ''dir'', ''folder'', ''directory'', ''file'',
                            ''filename'']),
      (''Admin'', [''admin'', ''role'', ''privilege'', ''permission'', ''access'',
                   ''level'']),
      (''Debug'', [''debug'', ''test'', ''dev'', ''trace'', ''verbose'', ''log''])]"

text \<open>
  \<open>get_auto_tags\<close>: the loop over the table appends a tag when \<open>any\<close> of its
  patterns is \<open>in\<close> the lower-cased name. The table is an argument of the loop so that
  the loop can be reasoned about for any table.
\<close>

definition tags_of :: "(string \<times> string list) list \<Rightarrow> string \<Rightarrow> string list" where
  "tags_of table lower_name =
     map fst (filter (\<lambda>(tag, patterns). list_ex (\<lambda>pattern. py_in pattern lower_name) patterns)
                table)"

definition get_auto_tags :: "string \<Rightarrow> string list" where
  "get_auto_tags param_name = tags_of AUTO_TAG_PATTERNS (py_lower param_name)"

section \<open>The document tree\<close>

text \<open>
  The parsers read the tree that \<open>BeautifulSoup(html_content, 'html.parser')\<close> builds;
  the tree is the input here. A node is a tag with its name and its contents, a plain
  \<open>NavigableString\<close>, or a string of one of the other classes, which
  \<open>SpecialString\<close> stands for: \<open>Comment\<close>, \<open>CData\<close>, \<open>Declaration\<close>,
  \<open>Doctype\<close>, and the strings inside \<open>script\<close>, \<open>style\<close> and \<open>template\<close>.
  The two kinds of string differ in one respect: \<open>get_text\<close>, called on a list item or
  a heading as the parsers do, joins the plain strings only, while \<open>.string\<close>,
  \<open>find(text=True)\<close> and \<open>.children\<close> see both. Attributes play no part in the
  parsers and are left out. The \<open>BeautifulSoup\<close> object itself is the tag named
  \<open>[document]\<close> whose contents are the top-level nodes.
\<close>

datatype node = Tag string "node list" | NavigableString string | SpecialString string

fun contents :: "node \<Rightarrow> node list" where
  "contents (Tag name cs) = cs"
| "contents (NavigableString s) = []"
| "contents (SpecialString s) = []"

definition is_tag :: "string \<Rightarrow> node \<Rightarrow> bool" where
  "is_tag name x =
     (case x of Tag n cs \<Rightarrow> n = name | NavigableString s \<Rightarrow> False | SpecialString s \<Rightarrow> False)"

text \<open>
  \<open>get_text()\<close> joins the plain strings below a node; \<open>get_text(strip=True)\<close>
  strips each of them first and leaves out those that become empty.
\<close>

fun strings :: "node \<Rightarrow> string list" where
  "strings (NavigableString s) = [s]"
| "strings (SpecialString s) = []"
| "strings (Tag name cs) = concat (map strings cs)"

definition get_text :: "node \<Rightarrow> string" where
  "get_text x = concat (strings x)"

definition get_text_strip :: "node \<Rightarrow> string" where
  "get_text_strip x = concat (filter (\<lambda>s. s \<noteq> []) (map py_strip (strings x)))"

text \<open>
  \<open>tag.string\<close>: the string of a tag with a single child, followed through single
  children; \<open>None\<close> for a tag with no child or several. The string may be of either
  kind, and it compares equal to a Python \<open>str\<close> with the same characters.
\<close>

fun tag_string :: "node \<Rightarrow> string option" where
  "tag_string (NavigableString s) = Some s"
| "tag_string (SpecialString s) = Some s"
| "tag_string (Tag name [c]) = tag_string c"
| "tag_string (Tag name cs) = None"

text \<open>
  \<open>find_all(name)\<close> lists the tags of that name below a node in document order (the
  node, then what it contains, then what follows it); \<open>find(name)\<close> is the first of
  them, or \<open>None\<close>.
\<close>

fun descendants :: "node \<Rightarrow> node list" where
  "descendants (NavigableString s) = []"
| "descendants (SpecialString s) = []"
| "descendants (Tag name cs) = concat (map (\<lambda>c. c # descendants c) cs)"

definition find_all :: "string \<Rightarrow> node \<Rightarrow> node list" where
  "find_all name x = filter (is_tag name) (descendants x)"

definition find_tag :: "string \<Rightarrow> node \<Rightarrow> node option" where
  "find_tag name x = (case find_all name x of [] \<Rightarrow> None | t # ts \<Rightarrow> Some t)"

text \<open>
  A search that also returns the later siblings of the node found, which is what
  \<open>find_next_sibling\<close> walks. The search visits the nodes in document order.
\<close>

lemma size_contents: "size_list size (contents c) < Suc (size c + k)"
  by (cases c) auto

function find_with_siblings ::
  "(node \<Rightarrow> bool) \<Rightarrow> node list \<Rightarrow> (node \<times> node list) option" where
  "find_with_siblings P [] = None"
| "find_with_siblings P (c # rest) =
     (if P c then Some (c, rest)
      else (case find_with_siblings P (contents c) of
              Some r \<Rightarrow> Some r
            | None \<Rightarrow> find_with_siblings P rest))"
  by pat_completeness auto
termination
  by (relation "measure (\<lambda>(P, ns). size_list size ns)") (auto simp: size_contents)

definition find_next_sibling :: "string \<Rightarrow> node list \<Rightarrow> node option" where
  "find_next_sibling name next_siblings = List.find (is_tag name) next_siblings"

text \<open>
  A parameter is the dictionary \<open>{'key': ..., 'value': ...}\<close>, a URL record the
  dictionary \<open>{'url': ..., 'parameters': [...]}\<close>.
\<close>

record param =
  key :: string
  val :: string

record url_record =
  url :: string
  parameters :: "param list"

text \<open>
  The state of the loop over the working list: the list \<open>urls\<close>, and
  \<open>current_url\<close>, which is either \<open>None\<close> or a reference to a record that is also
  an element of \<open>urls\<close>. The reference is the position of that record in \<open>urls\<close>, so
  that appending to \<open>current_url['parameters']\<close> changes the element of the list.
\<close>

record parse_state =
  urls :: "url_record list"
  current_url :: "nat option"

text \<open>
  One parameter line, from its text \<open>param_li.get_text(strip=True)\<close>: the two branches
  \<open>if param_text and '=' in param_text\<close> and \<open>elif param_text\<close>;
  \<open>split('=', 1)\<close> cuts at the first \<open>=\<close>. A line with an empty text appends
  nothing.
\<close>

definition param_of_text :: "string \<Rightarrow> param option" where
  "param_of_text param_text =
     (if param_text \<noteq> [] \<and> CHR ''='' \<in> set param_text then
        Some \<lparr>key = py_strip (takeWhile (\<lambda>c. c \<noteq> CHR ''='') param_text),
              val = py_strip (tl (dropWhile (\<lambda>c. c \<noteq> CHR ''='') param_text))\<rparr>
      else if param_text \<noteq> [] then Some \<lparr>key = py_strip param_text, val = []\<rparr>
      else None)"

text \<open>
  The loop \<open>for param_li in ....find_all('li')\<close>, appending to the parameters it
  starts from.
\<close>

definition collect_params :: "param list \<Rightarrow> node list \<Rightarrow> param list" where
  "collect_params ps lis =
     foldl (\<lambda>ps param_li. case param_of_text (get_text_strip param_li) of
                              Some p \<Rightarrow> ps @ [p] | None \<Rightarrow> ps) ps lis"

text \<open>
  One round of \<open>for child in main_ul.children\<close>, as in \<open>Full_Files/app.py\<close> (lines
  52--74), the first \<open>parse_burp_html\<close> of \<open>ParaDoWat.py\<close> (lines 43--68) and
  \<open>burp-tracker-streamlit.py\<close> (lines 49--71). A string child has no tag name and is
  passed over.
\<close>

definition child_step :: "parse_state \<Rightarrow> node \<Rightarrow> parse_state" where
  "child_step st child =
     (case child of
        NavigableString s \<Rightarrow> st
      | SpecialString s \<Rightarrow> st
      | Tag name cs \<Rightarrow>
          if name = ''li'' then
            (let url_text = get_text_strip child in
             if startswith url_text ''http''
             then \<lparr>urls = urls st @ [\<lparr>url = url_text, parameters = []\<rparr>],
                   current_url = Some (length (urls st))\<rparr>
             else st)
          else if name = ''ul'' then
            (case current_url st of
               None \<Rightarrow> st
             | Some i \<Rightarrow>
                 st\<lparr>urls := (urls st)[i := (urls st ! i)
                         \<lparr>parameters := collect_params (parameters (urls st ! i))
                                           (find_all ''li'' child)\<rparr>]\<rparr>)
          else st)"

definition initial_state :: parse_state where
  "initial_state = \<lparr>urls = [], current_url = None\<rparr>"

text \<open>
  The whole loop, and the filter \<open>[u for u in urls if u['parameters']]\<close> that ends each
  of the three functions.
\<close>

definition parse_children :: "node list \<Rightarrow> url_record list" where
  "parse_children children =
     filter (\<lambda>u. parameters u \<noteq> [])
       (urls (foldl child_step initial_state children))"

text \<open>
  \<open>ParaDoWat.py\<close>, first \<open>parse_burp_html\<close> (line 32): the working list is
  \<open>soup.find('ul')\<close>.
\<close>

definition parse_burp_html_cleaned :: "node \<Rightarrow> url_record list" where
  "parse_burp_html_cleaned soup =
     (case find_tag ''ul'' soup of
        None \<Rightarrow> []
      | Some main_ul \<Rightarrow> parse_children (contents main_ul))"

text \<open>
  \<open>Full_Files/app.py\<close>, \<open>parse_burp_html\<close> (line 29):
  \<open>soup.find('h2', string='Dynamic URLs')\<close> finds the first \<open>h2\<close> whose
  \<open>.string\<close> is that text. Without it the working list is the first \<open>ul\<close> inside
  \<open>body\<close>, with it the next sibling \<open>ul\<close> of the heading.
\<close>

definition parse_burp_html_app :: "node \<Rightarrow> url_record list" where
  "parse_burp_html_app soup =
     (let main_ul =
        (case find_with_siblings
                (\<lambda>c. is_tag ''h2'' c \<and> tag_string c = Some ''Dynamic URLs'') (contents soup) of
           None \<Rightarrow>
             (case find_tag ''body'' soup of
                None \<Rightarrow> None
              | Some body \<Rightarrow> find_tag ''ul'' body)
         | Some (dynamic_header, next_siblings) \<Rightarrow> find_next_sibling ''ul'' next_siblings)
      in case main_ul of
           None \<Rightarrow> []
         | Some main_ul \<Rightarrow> parse_children (contents main_ul))"

text \<open>
  \<open>burp-tracker-streamlit.py\<close>, \<open>parse_burp_html\<close> (line 36):
  \<open>soup.find('body').find('ul')\<close> raises \<open>AttributeError\<close> when the document has no
  \<open>body\<close>.
\<close>

datatype error = AttributeError

definition parse_burp_html_streamlit :: "node \<Rightarrow> error + url_record list" where
  "parse_burp_html_streamlit soup =
     (case find_tag ''body'' soup of
        None \<Rightarrow> Inl AttributeError
      | Some body \<Rightarrow>
          (case find_tag ''ul'' body of
             None \<Rightarrow> Inr []
           | Some main_ul \<Rightarrow> Inr (parse_children (contents main_ul))))"

text \<open>
  \<open>ParaDoWat.py\<close>, second \<open>parse_burp_html\<close> (line 302), which reads the nested
  list inside the URL item. \<open>li.find(text=True, recursive=False)\<close> is the first string
  among the contents of the item, of either kind. The function appends a record only when it has
  parameters. Before the loop it detaches the next \<open>h2\<close> and what follows it from their
  parent; the contents of \<open>main_ul\<close>, found before, are not touched by that, so the step
  has no counterpart here.
\<close>

fun first_string :: "node list \<Rightarrow> string option" where
  "first_string [] = None"
| "first_string (NavigableString s # rest) = Some s"
| "first_string (SpecialString s # rest) = Some s"
| "first_string (Tag name cs # rest) = first_string rest"

definition li_step :: "url_record list \<Rightarrow> node \<Rightarrow> url_record list" where
  "li_step us li =
     (case first_string (contents li) of
        None \<Rightarrow> us
      | Some t \<Rightarrow>
          (let url_text = py_strip t in
           if url_text = [] \<or> \<not> startswith url_text ''http'' then us
           else
             (let ps = (case find_tag ''ul'' li of
                          None \<Rightarrow> []
                        | Some nested_ul \<Rightarrow> collect_params [] (find_all ''li'' nested_ul))
              in if ps \<noteq> [] then us @ [\<lparr>url = url_text, parameters = ps\<rparr>] else us)))"

definition parse_burp_html_section :: "node \<Rightarrow> url_record list" where
  "parse_burp_html_section soup =
     (case find_with_siblings
             (\<lambda>h2. is_tag ''h2'' h2 \<and> py_in ''Dynamic URLs'' (get_text h2)) (contents soup) of
        None \<Rightarrow> []
      | Some (dynamic_header, next_siblings) \<Rightarrow>
          (case find_next_sibling ''ul'' next_siblings of
             None \<Rightarrow> []
           | Some main_ul \<Rightarrow> foldl li_step [] (filter (is_tag ''li'') (contents main_ul))))"


text \<open>
  Notions the statements use: the parameters a list of lines yields, the children that
  open a URL record, the documents all of whose strings are plain, all nodes below a list
  of nodes, and the states in which \<open>current_url\<close> refers to the last record of
  \<open>urls\<close>.
\<close>

definition param_lines :: "node list \<Rightarrow> param list" where
  "param_lines lis = List.map_filter (\<lambda>param_li. param_of_text (get_text_strip param_li)) lis"

definition opens_url :: "node \<Rightarrow> bool" where
  "opens_url child = (is_tag ''li'' child \<and> startswith (get_text_strip child) ''http'')"

definition is_special :: "node \<Rightarrow> bool" where
  "is_special x =
     (case x of Tag n cs \<Rightarrow> False | NavigableString s \<Rightarrow> False | SpecialString s \<Rightarrow> True)"

definition plain_document :: "node \<Rightarrow> bool" where
  "plain_document soup = list_all (\<lambda>x. \<not> is_special x) (descendants soup)"

definition all_nodes :: "node list \<Rightarrow> node list" where
  "all_nodes ns = concat (map (\<lambda>c. c # descendants c) ns)"

definition state_ok :: "parse_state \<Rightarrow> bool" where
  "state_ok st =
     (if urls st = [] then current_url st = None
      else current_url st = Some (length (urls st) - 1))"

subsection \<open>Example documents\<close>

definition example_sibling_list :: node where
  "example_sibling_list =
     Tag ''ul''
       [Tag ''ul'' [Tag ''li'' [NavigableString ''zz=1'']],
        Tag ''li'' [NavigableString '' http://x/a?id=1 ''],
        NavigableString '' '',
        Tag ''ul'' [Tag ''li'' [NavigableString ''id = 1 ''],
                    Tag ''li'' [NavigableString ''debug''],
                    Tag ''li'' [NavigableString ''  '']],
        Tag ''li'' [NavigableString ''http://x/b''],
        Tag ''li'' [NavigableString ''http://x/c''],
        Tag ''ul'' [Tag ''li'' [NavigableString ''q=a=b'']]]"

definition example_child_list :: node where
  "example_child_list =
     Tag ''ul''
       [Tag ''li'' [NavigableString ''http://x/a?id=1'',
                    Tag ''ul'' [Tag ''li'' [NavigableString ''id=1'']]]]"

definition document_of :: "node list \<Rightarrow> node" where
  "document_of body_nodes = Tag ''[document]'' [Tag ''html'' [Tag ''body'' body_nodes]]"

definition example_static_document :: node where
  "example_static_document =
     document_of [Tag ''h2'' [NavigableString ''Static URLs''], example_sibling_list]"

definition example_comment_heading :: node where
  "example_comment_heading =
     document_of [example_sibling_list, Tag ''h2'' [SpecialString ''Dynamic URLs'']]"

definition example_debug_list :: node where
  "example_debug_list =
     Tag ''ul''
       [Tag ''li'' [NavigableString ''http://x/a''],
        Tag ''ul'' [Tag ''li'' [NavigableString ''debug''],
                    Tag ''li'' [NavigableString ''id = 1'']]]"

section \<open>The aggregator\<close>

text \<open>
  \<open>process_urls\<close> exists in two forms. The one of \<open>Full_Files/app.py\<close> (line 79)
  and of the second half of \<open>ParaDoWat.py\<close> (line 371) keeps three fields per
  parameter and sorts by occurrences, then name. The one of the first half of
  \<open>ParaDoWat.py\<close> (line 72) keeps \<open>has_empty_values\<close> as well and sorts by
  occurrences, number of tags, empty-only rank, then name. Dictionaries keep the order in
  which their keys were first stored, so they are association lists, and
  \<open>AList.update\<close> stores under a key as a dictionary does: in place for a key that is
  there, at the end for a new one. Field \<open>values\<close> is \<open>values_map\<close> here.
\<close>

record entry =
  values_map :: "(string \<times> string list) list"
  total_occurrences :: int
  auto_tags :: "string list"

record entry_flagged = entry +
  has_empty_values :: bool

record 'e index =
  params :: "(string \<times> 'e) list"
  all_param_names :: "string list"
  total_urls :: int
  total_params :: int

text \<open>
  \<open>all_params\<close> is a Python set. It is kept as a list without repetitions;
  \<open>all_params.add(key)\<close> is \<open>set_add\<close>. The order in which Python iterates the set
  is not the order of this list: see \<open>iteration\<close> below.
\<close>

definition set_add :: "string \<Rightarrow> string list \<Rightarrow> string list" where
  "set_add k s = (if k \<in> set s then s else s @ [k])"

text \<open>
  The body of the inner loop. \<open>value_key\<close> is
  \<open>param['value'] if param['value'] else '(empty)'\<close>; \<open>append_url\<close> is
  \<open>if value not in values: values[value] = []\<close> followed by
  \<open>values[value].append(url)\<close>. The entry \<open>e\<close> is the one stored under the key after
  \<open>if key not in param_data: param_data[key] = {...}\<close>.
\<close>

definition value_key :: "param \<Rightarrow> string" where
  "value_key p = (if val p \<noteq> [] then val p else ''(empty)'')"

definition append_url ::
  "string \<Rightarrow> string \<Rightarrow> (string \<times> string list) list \<Rightarrow> (string \<times> string list) list" where
  "append_url v u vm =
     AList.update v ((case map_of vm v of None \<Rightarrow> [] | Some l \<Rightarrow> l) @ [u]) vm"

definition add_param_simple ::
  "string \<Rightarrow> (string \<times> entry) list \<times> string list \<Rightarrow> param
     \<Rightarrow> (string \<times> entry) list \<times> string list" where
  "add_param_simple u acc p =
     (case acc of (param_data, all_params) \<Rightarrow>
        (let k = key p;
             e = (case map_of param_data k of
                    None \<Rightarrow> \<lparr>values_map = [], total_occurrences = 0,
                              auto_tags = get_auto_tags k\<rparr>
                  | Some e \<Rightarrow> e)
         in (AList.update k
               (e\<lparr>values_map := append_url (value_key p) u (values_map e),
                   total_occurrences := total_occurrences e + 1\<rparr>) param_data,
             set_add k all_params)))"

definition add_param_priority ::
  "string \<Rightarrow> (string \<times> entry_flagged) list \<times> string list \<Rightarrow> param
     \<Rightarrow> (string \<times> entry_flagged) list \<times> string list" where
  "add_param_priority u acc p =
     (case acc of (param_data, all_params) \<Rightarrow>
        (let k = key p;
             e = (case map_of param_data k of
                    None \<Rightarrow> \<lparr>values_map = [], total_occurrences = 0,
                              auto_tags = get_auto_tags k, has_empty_values = False\<rparr>
                  | Some e \<Rightarrow> e)
         in (AList.update k
               (e\<lparr>values_map := append_url (value_key p) u (values_map e),
                   has_empty_values := (if val p = [] then True else has_empty_values e),
                   total_occurrences := total_occurrences e + 1\<rparr>) param_data,
             set_add k all_params)))"

text \<open>
  The sort keys. \<open>param_data[p]\<close> is looked up for the names of \<open>all_params\<close> only,
  and each of them is a key of \<open>param_data\<close> (part of \<open>consistent\<close> below, which the
  loop maintains), so the lookup does not fail; the branch for a missing key is never
  taken. Tuples compare lexicographically, strings by their characters.
\<close>

definition occurrences :: "(string \<times> 'a entry_scheme) list \<Rightarrow> string \<Rightarrow> int" where
  "occurrences param_data p =
     (case map_of param_data p of None \<Rightarrow> 0 | Some e \<Rightarrow> total_occurrences e)"

definition sort_key_simple :: "(string \<times> entry) list \<Rightarrow> string \<Rightarrow> int \<times> string" where
  "sort_key_simple param_data p = (- occurrences param_data p, p)"

definition sort_key_priority ::
  "(string \<times> entry_flagged) list \<Rightarrow> string \<Rightarrow> int \<times> int \<times> int \<times> string" where
  "sort_key_priority param_data param_name =
     (case map_of param_data param_name of
        None \<Rightarrow> (0, 0, 0, param_name)
      | Some d \<Rightarrow>
          (let num_tags = int (length (auto_tags d));
               occ = total_occurrences d;
               has_values = (\<not> has_empty_values d \<or> length (values_map d) > 1)
           in (- occ, - num_tags, if has_values then 0 else 1, param_name)))"

text \<open>
  The two nested loops, then the index. \<open>sorted(list(all_params), key=...)\<close> sorts the
  names in the order \<open>list\<close> gives them, which for a set of strings depends on their
  hashes and may differ from one run to the next. That order is the argument
  \<open>iteration\<close>: any function that lists the elements it is given, each once
  (\<open>iteration_order\<close> below). \<open>sort_key\<close> is a stable sort, as \<open>sorted\<close> is.
\<close>

definition aggregate_simple :: "url_record list \<Rightarrow> (string \<times> entry) list \<times> string list" where
  "aggregate_simple us =
     foldl (\<lambda>acc url_obj. foldl (add_param_simple (url url_obj)) acc (parameters url_obj))
       ([], []) us"

definition process_urls_simple ::
  "(string list \<Rightarrow> string list) \<Rightarrow> url_record list \<Rightarrow> entry index" where
  "process_urls_simple iteration us =
     (case aggregate_simple us of
        (param_data, all_params) \<Rightarrow>
          \<lparr>params = param_data,
           all_param_names = sort_key (sort_key_simple param_data) (iteration all_params),
           total_urls = int (length us),
           total_params = int (length all_params)\<rparr>)"

definition aggregate_priority ::
  "url_record list \<Rightarrow> (string \<times> entry_flagged) list \<times> string list" where
  "aggregate_priority us =
     foldl (\<lambda>acc url_obj. foldl (add_param_priority (url url_obj)) acc (parameters url_obj))
       ([], []) us"

definition process_urls_priority ::
  "(string list \<Rightarrow> string list) \<Rightarrow> url_record list \<Rightarrow> entry_flagged index" where
  "process_urls_priority iteration us =
     (case aggregate_priority us of
        (param_data, all_params) \<Rightarrow>
          \<lparr>params = param_data,
           all_param_names = sort_key (sort_key_priority param_data) (iteration all_params),
           total_urls = int (length us),
           total_params = int (length all_params)\<rparr>)"

subsection \<open>Notions the statements and proofs use\<close>

text \<open>
  The number of URLs listed in an entry, the number of parameter instances of a record
  sequence, the invariant of the aggregation loop, the projection that drops
  \<open>has_empty_values\<close>, the admissible iteration orders of a set, the part of the
  priority key that comes before the name, and what it means for an empty-valued instance
  to be on record.
\<close>

definition urls_counted :: "'a entry_scheme \<Rightarrow> int" where
  "urls_counted e = sum_list (map (\<lambda>(v, l). int (length l)) (values_map e))"

definition instances :: "url_record list \<Rightarrow> int" where
  "instances us = sum_list (map (\<lambda>r. int (length (parameters r))) us)"

definition consistent :: "(string \<times> 'a entry_scheme) list \<times> string list \<Rightarrow> bool" where
  "consistent acc =
     (distinct (map fst (fst acc)) \<and> distinct (snd acc) \<and> set (snd acc) = fst ` set (fst acc)
      \<and> list_all (\<lambda>(k, e). urls_counted e = total_occurrences e) (fst acc))"

definition forget :: "(string \<times> entry_flagged) list \<Rightarrow> (string \<times> entry) list" where
  "forget pd = map (\<lambda>(k, e). (k, entry.truncate e)) pd"

definition iteration_order :: "(string list \<Rightarrow> string list) \<Rightarrow> bool" where
  "iteration_order h = (\<forall>xs. set (h xs) = set xs \<and> (distinct xs \<longrightarrow> distinct (h xs)))"

definition priority_class ::
  "(string \<times> entry_flagged) list \<Rightarrow> string \<Rightarrow> int \<times> int \<times> int" where
  "priority_class param_data p =
     (case sort_key_priority param_data p of (occ, tags, rank, name) \<Rightarrow> (occ, tags, rank))"

definition recorded_empty ::
  "(string \<times> entry_flagged) list \<Rightarrow> string \<Rightarrow> string \<Rightarrow> bool" where
  "recorded_empty param_data k u =
     (\<exists>e l. map_of param_data k = Some e \<and> has_empty_values e
            \<and> map_of (values_map e) ''(empty)'' = Some l \<and> u \<in> set l)"

section \<open>The relationship engine\<close>

text \<open>
  \<open>get_co_occurrence\<close> (\<open>ParaDoWat.py\<close> lines 133 and 408, \<open>Full_Files/app.py\<close>
  line 116). \<open>co_occurrence\<close> is a \<open>defaultdict(int)\<close>: \<open>increment\<close> is
  \<open>co_occurrence[key] += 1\<close>. \<open>count_record\<close> is one round of the loop over the
  records; \<open>param_keys\<close> is a list and keeps repeated keys.
  \<open>sorted(..., key=..., reverse=True)\<close> keeps the order of items with equal keys: it
  sorts the reversed list and reverses the result. In the result \<open>auto_tags\<close> is
  \<open>partner_tags\<close>.
\<close>

definition increment :: "(string \<times> int) list \<Rightarrow> string \<Rightarrow> (string \<times> int) list" where
  "increment co k = AList.update k ((case map_of co k of None \<Rightarrow> 0 | Some c \<Rightarrow> c) + 1) co"

definition count_record ::
  "string \<Rightarrow> (string \<times> int) list \<Rightarrow> url_record \<Rightarrow> (string \<times> int) list" where
  "count_record target_param co url_obj =
     (let param_keys = map key (parameters url_obj) in
      if target_param \<in> set param_keys
      then foldl (\<lambda>co k. if k \<noteq> target_param then increment co k else co) co param_keys
      else co)"

definition sorted_reverse :: "('a \<Rightarrow> 'k::linorder) \<Rightarrow> 'a list \<Rightarrow> 'a list" where
  "sorted_reverse f xs = rev (sort_key f (rev xs))"

record relationship =
  param :: string
  count :: int
  partner_tags :: "string list"

definition get_co_occurrence :: "url_record list \<Rightarrow> string \<Rightarrow> relationship list" where
  "get_co_occurrence us target_param =
     map (\<lambda>(p, c). \<lparr>param = p, count = c, partner_tags = get_auto_tags p\<rparr>)
       (take 10 (sorted_reverse snd (foldl (count_record target_param) [] us)))"

subsection \<open>Counts the statements speak of, and example records\<close>

text \<open>
  \<open>partner_instances\<close> counts the parameter instances with key \<open>p\<close> in the records
  whose keys contain the target; \<open>records_with_both\<close> counts the records whose keys
  contain both.
\<close>

definition example_records :: "url_record list" where
  "example_records =
     [\<lparr>url = ''http://x/a'',
       parameters = [\<lparr>key = ''id'', val = ''1''\<rparr>, \<lparr>key = ''search'', val = ''foo''\<rparr>,
                     \<lparr>key = ''debug'', val = []\<rparr>, \<lparr>key = ''search'', val = ''bar''\<rparr>]\<rparr>,
      \<lparr>url = ''http://x/b'',
       parameters = [\<lparr>key = ''id'', val = ''2''\<rparr>, \<lparr>key = ''token'', val = ''t''\<rparr>]\<rparr>]"

definition counted :: "(string \<times> int) list \<Rightarrow> string \<Rightarrow> int" where
  "counted co k = (case map_of co k of None \<Rightarrow> 0 | Some c \<Rightarrow> c)"

definition param_keys_of :: "url_record \<Rightarrow> string list" where
  "param_keys_of url_obj = map key (parameters url_obj)"

definition partner_instances :: "url_record list \<Rightarrow> string \<Rightarrow> string \<Rightarrow> int" where
  "partner_instances us target_param p =
     sum_list (map (\<lambda>r. int (count_list (param_keys_of r) p))
                 (filter (\<lambda>r. target_param \<in> set (param_keys_of r)) us))"

definition records_with_both :: "url_record list \<Rightarrow> string \<Rightarrow> string \<Rightarrow> int" where
  "records_with_both us target_param p =
     int (length (filter (\<lambda>r. target_param \<in> set (param_keys_of r)
                                \<and> p \<in> set (param_keys_of r)) us))"

definition example_repeated_key :: "url_record list" where
  "example_repeated_key =
     [\<lparr>url = ''http://x/a'',
       parameters = [\<lparr>key = ''id'', val = ''1''\<rparr>, \<lparr>key = ''tok'', val = ''a''\<rparr>,
                     \<lparr>key = ''tok'', val = ''b''\<rparr>]\<rparr>]"

definition example_two_urls :: "url_record list" where
  "example_two_urls =
     [\<lparr>url = ''http://x/a'',
       parameters = [\<lparr>key = ''id'', val = ''1''\<rparr>, \<lparr>key = ''token'', val = ''s''\<rparr>]\<rparr>,
      \<lparr>url = ''http://x/b'',
       parameters = [\<lparr>key = ''token'', val = ''t''\<rparr>, \<lparr>key = ''id'', val = ''2''\<rparr>]\<rparr>]"

section \<open>Facts about strings\<close>

lemma py_in_iff: "py_in p s \<longleftrightarrow> (\<exists>a b. s = a @ p @ b)"
proof (induction s)
  case Nil
  then show ?case by auto
next
  case (Cons c cs)
  show ?case
  proof
    assume "py_in p (c # cs)"
    then consider "take (length p) (c # cs) = p" | "py_in p cs" by auto
    then show "\<exists>a b. c # cs = a @ p @ b"
    proof cases
      case 1
      then have "c # cs = [] @ p @ drop (length p) (c # cs)"
        by (metis append_Nil append_take_drop_id)
      then show ?thesis by blast
    next
      case 2
      with Cons.IH obtain a b where "cs = a @ p @ b" by blast
      then have "c # cs = (c # a) @ p @ b" by simp
      then show ?thesis by blast
    qed
  next
    assume "\<exists>a b. c # cs = a @ p @ b"
    then obtain a b where ab: "c # cs = a @ p @ b" by blast
    show "py_in p (c # cs)"
    proof (cases a)
      case Nil
      with ab have "take (length p) (c # cs) = p" by simp
      then show ?thesis by simp
    next
      case (Cons x a')
      with ab have "cs = a' @ p @ b" by simp
      with Cons.IH have "py_in p cs" by blast
      then show ?thesis by simp
    qed
  qed
qed

section \<open>The tag classifier: results\<close>

lemma tags_of_set:
  "set (tags_of table n) =
     {tag. \<exists>patterns p. (tag, patterns) \<in> set table \<and> p \<in> set patterns \<and> py_in p n}"
  by (auto simp: tags_of_def list_ex_iff) force

lemma tags_of_order:
  "distinct (map fst table) \<Longrightarrow>
     tags_of table n = filter (\<lambda>t. t \<in> set (tags_of table n)) (map fst table)"
proof -
  assume d: "distinct (map fst table)"
  let ?P = "\<lambda>(tag, patterns). list_ex (\<lambda>pattern. py_in pattern n) patterns"
  have "filter (\<lambda>t. t \<in> set (tags_of table n)) (map fst table)
          = map fst (filter (\<lambda>x. fst x \<in> set (tags_of table n)) table)"
    by (simp add: filter_map comp_def)
  also have "filter (\<lambda>x. fst x \<in> set (tags_of table n)) table = filter ?P table"
  proof (rule filter_cong[OF refl])
    fix x assume x: "x \<in> set table"
    obtain t ps where [simp]: "x = (t, ps)" by (cases x)
    have "fst x \<in> set (tags_of table n) \<longleftrightarrow> (\<exists>ps'. (t, ps') \<in> set table \<and> ?P (t, ps'))"
      by (force simp: tags_of_def)
    also have "\<dots> \<longleftrightarrow> ?P (t, ps)"
      using d x by (auto dest: eq_key_imp_eq_value)
    finally show "(fst x \<in> set (tags_of table n)) = ?P x" by simp
  qed
  finally show ?thesis by (simp add: tags_of_def)
qed

lemma tags_of_distinct: "distinct (map fst table) \<Longrightarrow> distinct (tags_of table n)"
  by (simp add: tags_of_def distinct_map_filter)

lemma AUTO_TAG_PATTERNS_distinct: "distinct (map fst AUTO_TAG_PATTERNS)"
  by (simp add: AUTO_TAG_PATTERNS_def)

text \<open>
  Claim C8. For every parameter name, \<open>get_auto_tags\<close> returns exactly the tags that have
  a pattern occurring as a substring of the lower-cased name; the tags come in the order
  of the table and none is repeated. The name \<open>id\<close> receives \<open>IDOR\<close> and the name
  \<open>search\<close> receives \<open>XSS\<close>.
\<close>

theorem get_auto_tags_exact:
  "set (get_auto_tags name) =
     {tag. \<exists>patterns p a b. (tag, patterns) \<in> set AUTO_TAG_PATTERNS \<and> p \<in> set patterns
                             \<and> py_lower name = a @ p @ b}
   \<and> get_auto_tags name
       = filter (\<lambda>t. t \<in> set (get_auto_tags name)) (map fst AUTO_TAG_PATTERNS)
   \<and> distinct (get_auto_tags name)
   \<and> ''IDOR'' \<in> set (get_auto_tags ''id'')
   \<and> ''XSS'' \<in> set (get_auto_tags ''search'')"
proof -
  have s: "set (get_auto_tags name) =
     {tag. \<exists>patterns p a b. (tag, patterns) \<in> set AUTO_TAG_PATTERNS \<and> p \<in> set patterns
                             \<and> py_lower name = a @ p @ b}"
    unfolding get_auto_tags_def tags_of_set py_in_iff by blast
  have ord: "get_auto_tags name
       = filter (\<lambda>t. t \<in> set (get_auto_tags name)) (map fst AUTO_TAG_PATTERNS)"
    unfolding get_auto_tags_def by (rule tags_of_order[OF AUTO_TAG_PATTERNS_distinct])
  have d: "distinct (get_auto_tags name)"
    unfolding get_auto_tags_def by (rule tags_of_distinct[OF AUTO_TAG_PATTERNS_distinct])
  have i: "get_auto_tags ''id'' = [''IDOR'', ''SQLi'']" by code_simp
  have x: "get_auto_tags ''search'' = [''XSS'']" by code_simp
  show ?thesis using s ord d by (simp add: i x)
qed

section \<open>Facts about the document tree\<close>

lemma tag_string_get_text:
  "tag_string c = Some s \<Longrightarrow> \<not> is_special c \<Longrightarrow> \<forall>x\<in>set (descendants c). \<not> is_special x
     \<Longrightarrow> get_text c = s"
  by (induction c arbitrary: s rule: tag_string.induct)
     (auto simp: get_text_def is_special_def)

lemma all_nodes_Cons: "all_nodes (c # rest) = c # all_nodes (contents c) @ all_nodes rest"
  by (cases c) (auto simp: all_nodes_def)

lemma all_nodes_Nil: "all_nodes [] = []"
  by (simp add: all_nodes_def)

lemma descendants_all_nodes: "descendants x = all_nodes (contents x)"
  by (cases x) (auto simp: all_nodes_def)

lemma set_subset_all_nodes: "set ns \<subseteq> set (all_nodes ns)"
  by (induction ns) (auto simp: all_nodes_Cons all_nodes_Nil)

lemma find_with_siblings_None:
  "(find_with_siblings P ns = None) = (\<forall>c\<in>set (all_nodes ns). \<not> P c)"
  by (induction P ns rule: find_with_siblings.induct)
     (auto simp: all_nodes_Cons all_nodes_Nil split: option.splits)

lemma find_with_siblings_Some:
  "find_with_siblings P ns = Some (c, sibs) \<Longrightarrow>
     P c \<and> c \<in> set (all_nodes ns) \<and> set sibs \<subseteq> set (all_nodes ns)"
proof (induction P ns rule: find_with_siblings.induct)
  case (1 P)
  then show ?case by simp
next
  case (2 P x rest)
  show ?case
  proof (cases "P x")
    case True
    with 2 show ?thesis using set_subset_all_nodes[of rest] by (auto simp: all_nodes_Cons)
  next
    case False
    show ?thesis
    proof (cases "find_with_siblings P (contents x)")
      case None
      with False 2 show ?thesis by (auto simp: all_nodes_Cons)
    next
      case (Some r)
      with False 2 show ?thesis by (auto simp: all_nodes_Cons)
    qed
  qed
qed

lemma all_nodes_append: "all_nodes (xs @ ys) = all_nodes xs @ all_nodes ys"
  by (simp add: all_nodes_def)

lemma all_nodes_closed:
  "c \<in> set (all_nodes ns) \<Longrightarrow> set (all_nodes (contents c)) \<subseteq> set (all_nodes ns)"
proof (induction "size_list size ns" arbitrary: ns c rule: less_induct)
  case less
  show ?case
  proof (cases ns)
    case Nil
    with less.prems show ?thesis by (simp add: all_nodes_Nil)
  next
    case (Cons x rest)
    from less.prems consider "c = x" | "c \<in> set (all_nodes (contents x))" | "c \<in> set (all_nodes rest)"
      by (auto simp: Cons all_nodes_Cons)
    then show ?thesis
    proof cases
      case 1
      then show ?thesis by (auto simp: Cons all_nodes_Cons)
    next
      case 2
      have "size_list size (contents x) < size_list size ns"
        using size_contents[of x "size_list size rest"] by (simp add: Cons)
      from less.hyps[OF this 2] show ?thesis by (auto simp: Cons all_nodes_Cons)
    next
      case 3
      have "size_list size rest < size_list size ns" by (simp add: Cons)
      from less.hyps[OF this 3] show ?thesis by (auto simp: Cons all_nodes_Cons)
    qed
  qed
qed

lemma descendants_closed:
  "c \<in> set (descendants x) \<Longrightarrow> set (descendants c) \<subseteq> set (descendants x)"
  using all_nodes_closed[of c "contents x"] by (simp add: descendants_all_nodes)

lemma find_tag_Some: "find_tag name x = Some t \<Longrightarrow> t \<in> set (descendants x) \<and> is_tag name t"
  unfolding find_tag_def find_all_def
  by (auto split: list.splits dest: arg_cong[where f=set] simp: filter_eq_Cons_iff)

lemma find_tag_None: "find_all name x = [] \<Longrightarrow> find_tag name x = None"
  by (simp add: find_tag_def)

lemma find_all_descendant:
  "c \<in> set (descendants x) \<Longrightarrow> find_all name x = [] \<Longrightarrow> find_all name c = []"
  using descendants_closed[of c x] by (auto simp: find_all_def filter_empty_conv)

lemma find_next_sibling_None:
  "\<forall>c\<in>set sibs. \<not> is_tag name c \<Longrightarrow> find_next_sibling name sibs = None"
  by (simp add: find_next_sibling_def find_None_iff)

section \<open>The parsers: facts\<close>

lemma collect_params_eq: "collect_params ps lis = ps @ param_lines lis"
  by (induction lis arbitrary: ps)
     (auto simp: collect_params_def param_lines_def List.map_filter_simps split: option.splits)

lemma param_of_text_split:
  assumes "CHR ''='' \<notin> set left"
  shows "param_of_text (left @ CHR ''='' # right)
           = Some \<lparr>key = py_strip left, val = py_strip right\<rparr>"
proof -
  have t: "takeWhile (\<lambda>c. c \<noteq> CHR ''='') (left @ CHR ''='' # right) = left"
    using assms by (induction left) auto
  have d: "dropWhile (\<lambda>c. c \<noteq> CHR ''='') (left @ CHR ''='' # right) = CHR ''='' # right"
    using assms by (induction left) auto
  show ?thesis unfolding param_of_text_def t d by simp
qed

lemma param_of_text_bare:
  "t \<noteq> [] \<Longrightarrow> CHR ''='' \<notin> set t \<Longrightarrow> param_of_text t = Some \<lparr>key = py_strip t, val = []\<rparr>"
  by (simp add: param_of_text_def)

lemma param_of_text_empty: "param_of_text [] = None"
  by (simp add: param_of_text_def)

subsection \<open>The loop over the working list\<close>

lemma child_step_no_url: "\<not> opens_url c \<Longrightarrow> child_step initial_state c = initial_state"
  by (cases c) (auto simp: child_step_def opens_url_def is_tag_def initial_state_def Let_def)

lemma foldl_no_url:
  "\<forall>c\<in>set pre. \<not> opens_url c \<Longrightarrow> foldl child_step initial_state pre = initial_state"
  by (induction pre) (auto simp: child_step_no_url)

lemma child_step_ok: "state_ok st \<Longrightarrow> state_ok (child_step st c)"
  by (cases c)
     (auto simp: child_step_def state_ok_def Let_def split: option.splits if_splits)

lemma foldl_ok: "state_ok st \<Longrightarrow> state_ok (foldl child_step st cs)"
  by (induction cs arbitrary: st) (auto simp: child_step_ok)

lemma initial_ok: "state_ok initial_state"
  by (simp add: state_ok_def initial_state_def)

lemma child_step_ul:
  assumes "state_ok st"
  shows "urls (child_step st (Tag ''ul'' ks)) =
           (if urls st = [] then []
            else butlast (urls st) @
                 [(last (urls st))\<lparr>parameters := parameters (last (urls st))
                      @ param_lines (find_all ''li'' (Tag ''ul'' ks))\<rparr>])"
proof (cases "urls st = []")
  case True
  with assms show ?thesis by (simp add: child_step_def state_ok_def)
next
  case False
  then have c: "current_url st = Some (length (urls st) - 1)"
    using assms by (simp add: state_ok_def)
  have u: "urls st = butlast (urls st) @ [last (urls st)]" using False by simp
  have n: "urls st ! (length (urls st) - 1) = last (urls st)"
    using False by (simp add: last_conv_nth)
  have l: "length (urls st) - 1 = length (butlast (urls st))" by simp
  have "(urls st)[length (urls st) - 1 := x] = butlast (urls st) @ [x]" for x
    by (subst u, subst l, subst list_update_length) simp
  then show ?thesis using False c n
    by (simp add: child_step_def collect_params_eq)
qed


section \<open>The parsers: results\<close>

lemma filter_params_nonempty: "r \<in> set (parse_children cs) \<Longrightarrow> parameters r \<noteq> []"
  by (simp add: parse_children_def)

lemma li_step_nonempty:
  "\<forall>r\<in>set us. parameters r \<noteq> [] \<Longrightarrow> \<forall>r\<in>set (li_step us li). parameters r \<noteq> []"
  by (auto simp: li_step_def Let_def split: option.splits)

lemma foldl_li_step_nonempty:
  "\<forall>r\<in>set us. parameters r \<noteq> [] \<Longrightarrow> \<forall>r\<in>set (foldl li_step us lis). parameters r \<noteq> []"
proof (induction lis arbitrary: us)
  case Nil
  then show ?case by simp
next
  case (Cons li lis)
  from li_step_nonempty[OF Cons.prems] have "\<forall>r\<in>set (li_step us li). parameters r \<noteq> []" .
  from Cons.IH[OF this] show ?case by simp
qed

text \<open>
  Claim C6. For every document, every URL record a parser returns has at least one
  parameter: the sibling-shape parsers filter the records at the end, the section parser
  appends a record only when it has parameters. The streamlit copy raises when the document
  has no \<open>body\<close>; the statement covers what it returns.
\<close>

theorem parsed_records_have_parameters:
  "(\<forall>r\<in>set (parse_burp_html_cleaned soup). parameters r \<noteq> [])
   \<and> (\<forall>r\<in>set (parse_burp_html_app soup). parameters r \<noteq> [])
   \<and> (\<forall>rs. parse_burp_html_streamlit soup = Inr rs \<longrightarrow> (\<forall>r\<in>set rs. parameters r \<noteq> []))
   \<and> (\<forall>r\<in>set (parse_burp_html_section soup). parameters r \<noteq> [])"
proof -
  have a: "\<forall>r\<in>set (parse_burp_html_cleaned soup). parameters r \<noteq> []"
    by (auto simp: parse_burp_html_cleaned_def split: option.splits
             dest: filter_params_nonempty)
  have b: "\<forall>r\<in>set (parse_burp_html_app soup). parameters r \<noteq> []"
    by (auto simp: parse_burp_html_app_def Let_def split: option.splits prod.splits
             dest: filter_params_nonempty)
  have c: "\<forall>rs. parse_burp_html_streamlit soup = Inr rs \<longrightarrow> (\<forall>r\<in>set rs. parameters r \<noteq> [])"
    by (auto simp: parse_burp_html_streamlit_def split: option.splits
             dest: filter_params_nonempty)
  have "\<forall>r\<in>set (foldl li_step [] lis). parameters r \<noteq> []" for lis
    by (rule foldl_li_step_nonempty) simp
  then have d: "\<forall>r\<in>set (parse_burp_html_section soup). parameters r \<noteq> []"
    by (auto simp: parse_burp_html_section_def split: option.splits prod.splits)
  from a b c d show ?thesis by blast
qed

text \<open>
  The statement at a document whose list holds three URL items, one of them without
  parameters.
\<close>

theorem parsed_records_have_parameters_witness:
  "parse_burp_html_app (document_of [example_sibling_list]) \<noteq> []
   \<and> list_all (\<lambda>r. parameters r \<noteq> []) (parse_burp_html_app (document_of [example_sibling_list]))
   \<and> list_all (\<lambda>r. parameters r \<noteq> []) (parse_burp_html_cleaned (document_of [example_sibling_list]))
   \<and> list_all (\<lambda>r. parameters r \<noteq> []) (parse_burp_html_section (document_of [example_sibling_list]))"
proof -
  have "parse_burp_html_app (document_of [example_sibling_list]) \<noteq> []"
    by code_simp
  then show ?thesis
    using parsed_records_have_parameters[of "document_of [example_sibling_list]"]
    by (simp add: list_all_iff)
qed

text \<open>
  Claim C10. In the sibling-shape loop, children that come before the first list item
  whose text starts with \<open>http\<close> (nested lists among them) leave the state as it
  was at the start: they create no URL record, are attached to none, and the parser's
  result is that of the remaining children. At any point of the loop a nested list changes
  only the last record opened, by appending its parameter lines; with no record open it
  changes nothing.
\<close>

theorem parameters_attach_to_open_record:
  "((\<forall>c\<in>set pre. \<not> opens_url c) \<longrightarrow>
      foldl child_step initial_state pre = initial_state
      \<and> parse_children (pre @ rest) = parse_children rest)
   \<and> (let st = foldl child_step initial_state cs in
        urls (child_step st (Tag ''ul'' ks)) =
          (if urls st = [] then []
           else butlast (urls st) @
                [(last (urls st))\<lparr>parameters := parameters (last (urls st))
                     @ param_lines (find_all ''li'' (Tag ''ul'' ks))\<rparr>]))"
proof -
  have a: "(\<forall>c\<in>set pre. \<not> opens_url c) \<longrightarrow>
      foldl child_step initial_state pre = initial_state
      \<and> parse_children (pre @ rest) = parse_children rest"
    by (simp add: foldl_no_url parse_children_def)
  have "state_ok (foldl child_step initial_state cs)"
    by (rule foldl_ok[OF initial_ok])
  from child_step_ul[OF this] a show ?thesis by (simp add: Let_def)
qed

text \<open>
  A nested list before the first URL item is dropped, and a nested list after two URL
  items goes to the second.
\<close>

theorem parameters_attach_to_open_record_witness:
  "parse_children (Tag ''ul'' [Tag ''li'' [NavigableString ''zz=1'']]
                   # [Tag ''li'' [NavigableString ''http://x/a''],
                      Tag ''ul'' [Tag ''li'' [NavigableString ''id=1'']]])
     = [\<lparr>url = ''http://x/a'', parameters = [\<lparr>key = ''id'', val = ''1''\<rparr>]\<rparr>]
   \<and> urls (child_step
              (foldl child_step initial_state
                 [Tag ''li'' [NavigableString ''http://x/a''],
                  Tag ''li'' [NavigableString ''http://x/b'']])
              (Tag ''ul'' [Tag ''li'' [NavigableString ''id=1'']]))
     = [\<lparr>url = ''http://x/a'', parameters = []\<rparr>,
        \<lparr>url = ''http://x/b'', parameters = [\<lparr>key = ''id'', val = ''1''\<rparr>]\<rparr>]"
proof -
  let ?pre = "[Tag ''ul'' [Tag ''li'' [NavigableString ''zz=1'']]]"
  let ?rest = "[Tag ''li'' [NavigableString ''http://x/a''],
                Tag ''ul'' [Tag ''li'' [NavigableString ''id=1'']]]"
  let ?cs = "[Tag ''li'' [NavigableString ''http://x/a''],
              Tag ''li'' [NavigableString ''http://x/b'']]"
  let ?ks = "[Tag ''li'' [NavigableString ''id=1'']]"
  have h: "\<forall>c\<in>set ?pre. \<not> opens_url c" by (simp add: opens_url_def is_tag_def)
  have r: "parse_children ?rest
             = [\<lparr>url = ''http://x/a'', parameters = [\<lparr>key = ''id'', val = ''1''\<rparr>]\<rparr>]"
    by code_simp
  have u: "urls (foldl child_step initial_state ?cs)
             = [\<lparr>url = ''http://x/a'', parameters = []\<rparr>, \<lparr>url = ''http://x/b'', parameters = []\<rparr>]"
    by code_simp
  have p: "param_lines (find_all ''li'' (Tag ''ul'' ?ks)) = [\<lparr>key = ''id'', val = ''1''\<rparr>]"
    by code_simp
  show ?thesis
    using parameters_attach_to_open_record[of ?pre ?rest ?cs ?ks, unfolded Let_def u p] h r
    by (simp del: foldl_Cons)
qed

lemma app_fallback:
  assumes "\<forall>h\<in>set (find_all ''h2'' soup). tag_string h \<noteq> Some ''Dynamic URLs''"
  shows "parse_burp_html_app soup =
        (case find_tag ''body'' soup of
           None \<Rightarrow> []
         | Some body \<Rightarrow>
             (case find_tag ''ul'' body of
                None \<Rightarrow> []
              | Some main_ul \<Rightarrow> parse_children (contents main_ul)))"
proof -
  have "\<not> (is_tag ''h2'' c \<and> tag_string c = Some ''Dynamic URLs'')"
    if "c \<in> set (all_nodes (contents soup))" for c
    using assms that by (auto simp: find_all_def descendants_all_nodes)
  then have "find_with_siblings
               (\<lambda>c. is_tag ''h2'' c \<and> tag_string c = Some ''Dynamic URLs'') (contents soup) = None"
    unfolding find_with_siblings_None by blast
  then show ?thesis
    by (simp add: parse_burp_html_app_def split: option.splits)
qed

lemma section_without_heading:
  assumes "\<forall>h\<in>set (find_all ''h2'' soup). \<not> py_in ''Dynamic URLs'' (get_text h)"
  shows "parse_burp_html_section soup = []"
proof -
  have "\<not> (is_tag ''h2'' c \<and> py_in ''Dynamic URLs'' (get_text c))"
    if "c \<in> set (all_nodes (contents soup))" for c
    using assms that by (auto simp: find_all_def descendants_all_nodes)
  then have "find_with_siblings
               (\<lambda>h2. is_tag ''h2'' h2 \<and> py_in ''Dynamic URLs'' (get_text h2)) (contents soup) = None"
    unfolding find_with_siblings_None by blast
  then show ?thesis by (simp add: parse_burp_html_section_def)
qed

lemma plain_heading_string:
  assumes p: "plain_document soup"
    and h: "\<forall>h\<in>set (find_all ''h2'' soup). \<not> py_in ''Dynamic URLs'' (get_text h)"
  shows "\<forall>h\<in>set (find_all ''h2'' soup). tag_string h \<noteq> Some ''Dynamic URLs''"
proof
  fix c assume c: "c \<in> set (find_all ''h2'' soup)"
  then have d: "c \<in> set (descendants soup)" by (simp add: find_all_def)
  show "tag_string c \<noteq> Some ''Dynamic URLs''"
  proof
    assume s: "tag_string c = Some ''Dynamic URLs''"
    from p d have 1: "\<not> is_special c" by (simp add: plain_document_def list_all_iff)
    from p descendants_closed[OF d] have 2: "\<forall>x\<in>set (descendants c). \<not> is_special x"
      by (auto simp: plain_document_def list_all_iff)
    from tag_string_get_text[OF s 1 2] have "get_text c = ''Dynamic URLs''" .
    then have "py_in ''Dynamic URLs'' (get_text c)"
      unfolding py_in_iff by (metis append_Nil append_Nil2)
    with h c show False by blast
  qed
qed

lemma without_list:
  assumes e: "find_all ''ul'' soup = []"
  shows "parse_burp_html_app soup = [] \<and> parse_burp_html_section soup = []
        \<and> parse_burp_html_cleaned soup = []"
proof -
  have no: "\<not> is_tag ''ul'' c" if "c \<in> set (all_nodes (contents soup))" for c
    using e that by (auto simp: find_all_def descendants_all_nodes filter_empty_conv)
  have sib: "find_next_sibling ''ul'' sibs = None"
    if "find_with_siblings P (contents soup) = Some (c, sibs)" for P c sibs
    using find_with_siblings_Some[OF that] no
    by (intro find_next_sibling_None) blast
  have body: "find_tag ''ul'' b = None" if "find_tag ''body'' soup = Some b" for b
    using find_tag_Some[OF that] find_all_descendant[OF _ e] by (simp add: find_tag_None)
  have 1: "parse_burp_html_app soup = []"
    by (auto simp: parse_burp_html_app_def Let_def sib body split: option.splits)
  have 2: "parse_burp_html_section soup = []"
    by (auto simp: parse_burp_html_section_def sib split: option.splits)
  have 3: "parse_burp_html_cleaned soup = []"
    by (simp add: parse_burp_html_cleaned_def find_tag_None[OF e])
  from 1 2 3 show ?thesis by simp
qed

text \<open>
  The heading test of \<open>Full_Files/app.py\<close> reads \<open>.string\<close>, which also returns a
  comment; \<open>get_text\<close> does not. A document whose only \<open>h2\<close> holds the comment
  \<open>Dynamic URLs\<close> has no heading text with the phrase, yet the parser takes the heading
  path, finds no list after the heading and returns nothing, where the fallback would
  have read the list before it.
\<close>

lemma comment_heading_is_matched:
  "list_all (\<lambda>h. \<not> py_in ''Dynamic URLs'' (get_text h)) (find_all ''h2'' example_comment_heading)
   \<and> parse_burp_html_app example_comment_heading = []
   \<and> parse_burp_html_cleaned example_comment_heading \<noteq> []"
  by code_simp

text \<open>
  Claim C2, as the code has it. When no \<open>h2\<close> element has a text containing
  \<open>Dynamic URLs\<close> and none has that phrase as its \<open>.string\<close>, the parser of
  \<open>Full_Files/app.py\<close> takes the first \<open>ul\<close> element, in document order, inside
  the \<open>body\<close> element as the working list and parses it (the result is empty when
  there is no \<open>body\<close> or no \<open>ul\<close> in it); the section parser of
  \<open>ParaDoWat.py\<close> returns the empty sequence, for which the condition on the text is
  enough. In a document all of whose strings are plain the condition on \<open>.string\<close>
  follows from the one on the text. When the document holds no \<open>ul\<close> element at all,
  these parsers return the empty sequence; they have no path that raises.
\<close>

theorem fallback_without_heading:
  "((\<forall>h\<in>set (find_all ''h2'' soup).
        \<not> py_in ''Dynamic URLs'' (get_text h) \<and> tag_string h \<noteq> Some ''Dynamic URLs'') \<longrightarrow>
      parse_burp_html_app soup =
        (case find_tag ''body'' soup of
           None \<Rightarrow> []
         | Some body \<Rightarrow>
             (case find_tag ''ul'' body of
                None \<Rightarrow> []
              | Some main_ul \<Rightarrow> parse_children (contents main_ul)))
      \<and> parse_burp_html_section soup = [])
   \<and> ((\<forall>h\<in>set (find_all ''h2'' soup). \<not> py_in ''Dynamic URLs'' (get_text h)) \<longrightarrow>
        parse_burp_html_section soup = []
        \<and> (plain_document soup \<longrightarrow>
             parse_burp_html_app soup =
               (case find_tag ''body'' soup of
                  None \<Rightarrow> []
                | Some body \<Rightarrow>
                    (case find_tag ''ul'' body of
                       None \<Rightarrow> []
                     | Some main_ul \<Rightarrow> parse_children (contents main_ul)))))
   \<and> (find_all ''ul'' soup = [] \<longrightarrow>
        parse_burp_html_app soup = [] \<and> parse_burp_html_section soup = []
        \<and> parse_burp_html_cleaned soup = [])"
proof (intro conjI impI)
  assume a: "\<forall>h\<in>set (find_all ''h2'' soup).
        \<not> py_in ''Dynamic URLs'' (get_text h) \<and> tag_string h \<noteq> Some ''Dynamic URLs''"
  then have "\<forall>h\<in>set (find_all ''h2'' soup). tag_string h \<noteq> Some ''Dynamic URLs''" by blast
  then show "parse_burp_html_app soup =
        (case find_tag ''body'' soup of
           None \<Rightarrow> []
         | Some body \<Rightarrow>
             (case find_tag ''ul'' body of
                None \<Rightarrow> []
              | Some main_ul \<Rightarrow> parse_children (contents main_ul)))"
    by (rule app_fallback)
  from a have "\<forall>h\<in>set (find_all ''h2'' soup). \<not> py_in ''Dynamic URLs'' (get_text h)" by blast
  then show "parse_burp_html_section soup = []" by (rule section_without_heading)
next
  assume "\<forall>h\<in>set (find_all ''h2'' soup). \<not> py_in ''Dynamic URLs'' (get_text h)"
  then show "parse_burp_html_section soup = []" by (rule section_without_heading)
next
  assume h: "\<forall>h\<in>set (find_all ''h2'' soup). \<not> py_in ''Dynamic URLs'' (get_text h)"
    and p: "plain_document soup"
  show "parse_burp_html_app soup =
        (case find_tag ''body'' soup of
           None \<Rightarrow> []
         | Some body \<Rightarrow>
             (case find_tag ''ul'' body of
                None \<Rightarrow> []
              | Some main_ul \<Rightarrow> parse_children (contents main_ul)))"
    by (rule app_fallback[OF plain_heading_string[OF p h]])
next
  assume e: "find_all ''ul'' soup = []"
  from without_list[OF e] show "parse_burp_html_app soup = []"
    and "parse_burp_html_section soup = []" and "parse_burp_html_cleaned soup = []"
    by simp_all
qed

text \<open>
  The parts at concrete documents: one whose only heading is \<open>Static URLs\<close>, followed
  by a list, and one without any list.
\<close>

theorem fallback_without_heading_witness:
  "parse_burp_html_app example_static_document =
     [\<lparr>url = ''http://x/a?id=1'',
        parameters = [\<lparr>key = ''id'', val = ''1''\<rparr>, \<lparr>key = ''debug'', val = []\<rparr>]\<rparr>,
      \<lparr>url = ''http://x/c'', parameters = [\<lparr>key = ''q'', val = ''a=b''\<rparr>]\<rparr>]
   \<and> parse_burp_html_section example_static_document = []
   \<and> find_all ''h2'' example_static_document = [Tag ''h2'' [NavigableString ''Static URLs'']]
   \<and> plain_document example_static_document
   \<and> parse_burp_html_app (document_of [Tag ''p'' [NavigableString ''nothing'']]) = []
   \<and> parse_burp_html_section (document_of [Tag ''p'' [NavigableString ''nothing'']]) = []"
proof -
  let ?d = "example_static_document"
  let ?e = "document_of [Tag ''p'' [NavigableString ''nothing'']]"
  have f: "find_all ''h2'' ?d = [Tag ''h2'' [NavigableString ''Static URLs'']]"
    by code_simp
  have t: "\<not> py_in ''Dynamic URLs'' (get_text (Tag ''h2'' [NavigableString ''Static URLs'']))"
    by code_simp
  have h: "\<forall>h\<in>set (find_all ''h2'' ?d).
        \<not> py_in ''Dynamic URLs'' (get_text h) \<and> tag_string h \<noteq> Some ''Dynamic URLs''"
    unfolding f using t by simp
  have p: "plain_document ?d" by code_simp
  have n: "find_all ''ul'' ?e = []" by code_simp
  have v: "(case find_tag ''body'' ?d of
           None \<Rightarrow> []
         | Some body \<Rightarrow>
             (case find_tag ''ul'' body of
                None \<Rightarrow> []
              | Some main_ul \<Rightarrow> parse_children (contents main_ul))) =
     [\<lparr>url = ''http://x/a?id=1'',
        parameters = [\<lparr>key = ''id'', val = ''1''\<rparr>, \<lparr>key = ''debug'', val = []\<rparr>]\<rparr>,
      \<lparr>url = ''http://x/c'', parameters = [\<lparr>key = ''q'', val = ''a=b''\<rparr>]\<rparr>]"
    by code_simp
  from fallback_without_heading[of ?d] h v
  have 1: "parse_burp_html_app ?d =
     [\<lparr>url = ''http://x/a?id=1'',
        parameters = [\<lparr>key = ''id'', val = ''1''\<rparr>, \<lparr>key = ''debug'', val = []\<rparr>]\<rparr>,
      \<lparr>url = ''http://x/c'', parameters = [\<lparr>key = ''q'', val = ''a=b''\<rparr>]\<rparr>]
    \<and> parse_burp_html_section ?d = []"
    by simp
  from fallback_without_heading[of ?e] n
  have 2: "parse_burp_html_app ?e = [] \<and> parse_burp_html_section ?e = []"
    by simp
  from 1 2 f p show ?thesis by simp
qed

text \<open>
  Claim C2, as the specification states it, fails for the section parser: a document
  without a heading, whose first list holds a URL item with a parameter in the shape this
  parser reads, yields no record, although the parser's own walk over that list yields
  one.
\<close>

theorem section_parser_has_no_fallback:
  "parse_burp_html_section (document_of [example_child_list]) = []
   \<and> foldl li_step [] (filter (is_tag ''li'') (contents example_child_list))
       = [\<lparr>url = ''http://x/a?id=1'', parameters = [\<lparr>key = ''id'', val = ''1''\<rparr>]\<rparr>]"
  by code_simp


section \<open>Facts about association lists\<close>

lemma update_member: "x \<in> set (AList.update k v al) \<Longrightarrow> x = (k, v) \<or> x \<in> set al"
  by (induction al) (auto split: if_splits)

lemma update_sum:
  fixes g :: "'k \<times> 'v \<Rightarrow> int"
  shows "sum_list (map g (AList.update k v al)) =
           sum_list (map g al) + g (k, v)
             - (case map_of al k of None \<Rightarrow> 0 | Some w \<Rightarrow> g (k, w))"
  by (induction al) (auto split: option.splits)

lemma update_map_snd:
  "map (\<lambda>(k, e). (k, f e)) (AList.update k v al)
     = AList.update k (f v) (map (\<lambda>(k, e). (k, f e)) al)"
  by (induction al) auto

lemma map_of_map_snd:
  "map_of (map (\<lambda>(k, e). (k, f e)) al) k = map_option f (map_of al k)"
  by (induction al) auto

section \<open>The aggregator: facts\<close>

lemma append_url_sum:
  "sum_list (map (\<lambda>(v, l). int (length l)) (append_url v u vm))
     = sum_list (map (\<lambda>(v, l). int (length l)) vm) + 1"
  unfolding append_url_def update_sum by (auto split: option.splits dest: map_of_SomeD)

lemma set_add_set: "set (set_add k s) = insert k (set s)"
  by (auto simp: set_add_def)

lemma set_add_distinct: "distinct s \<Longrightarrow> distinct (set_add k s)"
  by (auto simp: set_add_def)

lemma add_param_simple_consistent:
  assumes "consistent acc"
  shows "consistent (add_param_simple u acc p)"
proof -
  obtain pd ap where acc: "acc = (pd, ap)" by (cases acc)
  let ?e = "(case map_of pd (key p) of
                    None \<Rightarrow> \<lparr>values_map = [], total_occurrences = 0,
                              auto_tags = get_auto_tags (key p)\<rparr>
                  | Some e \<Rightarrow> e)"
  let ?e' = "?e\<lparr>values_map := append_url (value_key p) u (values_map ?e),
                   total_occurrences := total_occurrences ?e + 1\<rparr>"
  have r: "add_param_simple u acc p = (AList.update (key p) ?e' pd, set_add (key p) ap)"
    by (simp add: add_param_simple_def acc Let_def)
  from assms have d: "distinct (map fst pd)" and da: "distinct ap"
    and s: "set ap = fst ` set pd"
    and c: "list_all (\<lambda>(k, e). urls_counted e = total_occurrences e) pd"
    by (simp_all add: consistent_def acc)
  have e: "urls_counted ?e = total_occurrences ?e"
  proof (cases "map_of pd (key p)")
    case None
    then show ?thesis by (simp add: urls_counted_def)
  next
    case (Some x)
    then have "(key p, x) \<in> set pd" by (rule map_of_SomeD)
    with c Some show ?thesis by (auto simp: list_all_iff)
  qed
  have e': "urls_counted ?e' = total_occurrences ?e'"
    using e by (simp add: urls_counted_def append_url_sum)
  have 1: "distinct (map fst (AList.update (key p) ?e' pd))"
    using d by (rule distinct_update)
  have 2: "fst ` set (AList.update (key p) ?e' pd) = insert (key p) (fst ` set pd)"
    by (simp add: dom_update)
  have 3: "list_all (\<lambda>(k, e). urls_counted e = total_occurrences e)
             (AList.update (key p) ?e' pd)"
    unfolding list_all_iff
  proof
    fix x assume "x \<in> set (AList.update (key p) ?e' pd)"
    then have "x = (key p, ?e') \<or> x \<in> set pd" by (rule update_member)
    then show "case x of (k, e) \<Rightarrow> urls_counted e = total_occurrences e"
      using e' c by (auto simp: list_all_iff)
  qed
  show ?thesis
    unfolding r consistent_def using 1 2 3 da s
    by (simp add: set_add_set set_add_distinct)
qed

lemma add_param_simple_total:
  "sum_list (map (\<lambda>(k, e). total_occurrences e) (fst (add_param_simple u acc p)))
     = sum_list (map (\<lambda>(k, e). total_occurrences e) (fst acc)) + 1"
proof -
  obtain pd ap where acc: "acc = (pd, ap)" by (cases acc)
  show ?thesis
    unfolding acc add_param_simple_def
    by (simp add: Let_def update_sum split: option.splits)
qed

lemma record_simple_consistent:
  "consistent acc \<Longrightarrow> consistent (foldl (add_param_simple u) acc ps)"
  by (induction ps arbitrary: acc) (simp_all add: add_param_simple_consistent)

lemma record_simple_total:
  "sum_list (map (\<lambda>(k, e). total_occurrences e) (fst (foldl (add_param_simple u) acc ps)))
     = sum_list (map (\<lambda>(k, e). total_occurrences e) (fst acc)) + int (length ps)"
  by (induction ps arbitrary: acc) (simp_all add: add_param_simple_total)

lemma loop_simple_consistent:
  "consistent acc \<Longrightarrow>
     consistent (foldl (\<lambda>acc url_obj. foldl (add_param_simple (url url_obj)) acc
                          (parameters url_obj)) acc us)"
  by (induction us arbitrary: acc) (simp_all add: record_simple_consistent)

lemma loop_simple_total:
  "sum_list (map (\<lambda>(k, e). total_occurrences e)
       (fst (foldl (\<lambda>acc url_obj. foldl (add_param_simple (url url_obj)) acc
                          (parameters url_obj)) acc us)))
     = sum_list (map (\<lambda>(k, e). total_occurrences e) (fst acc)) + instances us"
  by (induction us arbitrary: acc) (simp_all add: record_simple_total instances_def)

lemma aggregate_simple_consistent: "consistent (aggregate_simple us)"
  unfolding aggregate_simple_def
  by (rule loop_simple_consistent) (simp add: consistent_def)

lemma aggregate_simple_total:
  "sum_list (map (\<lambda>(k, e). total_occurrences e) (fst (aggregate_simple us))) = instances us"
  unfolding aggregate_simple_def loop_simple_total by simp


lemma truncate_fields:
  "values_map (entry.truncate e) = values_map e"
  "total_occurrences (entry.truncate e) = total_occurrences e"
  "auto_tags (entry.truncate e) = auto_tags e"
  by (simp_all add: entry.truncate_def)

lemma add_param_priority_forget:
  "add_param_simple u (forget pd, ap) p
     = (forget (fst (add_param_priority u (pd, ap) p)), snd (add_param_priority u (pd, ap) p))"
  unfolding add_param_simple_def add_param_priority_def forget_def
  by (simp add: Let_def update_map_snd map_of_map_snd entry.truncate_def split: option.splits)

lemma record_priority_forget:
  "foldl (add_param_simple u) (forget (fst acc), snd acc) ps
     = (forget (fst (foldl (add_param_priority u) acc ps)),
        snd (foldl (add_param_priority u) acc ps))"
proof (induction ps arbitrary: acc)
  case Nil
  then show ?case by simp
next
  case (Cons p ps)
  obtain pd ap where acc: "acc = (pd, ap)" by (cases acc)
  show ?case
    using Cons.IH[of "add_param_priority u (pd, ap) p"]
    by (simp add: acc add_param_priority_forget)
qed

lemma loop_priority_forget:
  "foldl (\<lambda>acc url_obj. foldl (add_param_simple (url url_obj)) acc (parameters url_obj))
       (forget (fst acc), snd acc) us
     = (forget (fst (foldl (\<lambda>acc url_obj. foldl (add_param_priority (url url_obj)) acc
                               (parameters url_obj)) acc us)),
        snd (foldl (\<lambda>acc url_obj. foldl (add_param_priority (url url_obj)) acc
                               (parameters url_obj)) acc us))"
proof (induction us arbitrary: acc)
  case Nil
  then show ?case by simp
next
  case (Cons r us)
  show ?case
    using Cons.IH[of "foldl (add_param_priority (url r)) acc (parameters r)"]
    by (simp add: record_priority_forget)
qed

lemma aggregate_priority_forget:
  "aggregate_simple us = (forget (fst (aggregate_priority us)), snd (aggregate_priority us))"
  unfolding aggregate_simple_def aggregate_priority_def
  using loop_priority_forget[of "([], [])" us] by (simp add: forget_def)

lemma consistent_forget: "consistent (forget pd, ap) = consistent (pd, ap)"
  by (auto simp: consistent_def forget_def list_all_iff urls_counted_def truncate_fields
        comp_def case_prod_unfold image_image)

lemma aggregate_priority_consistent: "consistent (aggregate_priority us)"
  using aggregate_simple_consistent[of us] consistent_forget[of "fst (aggregate_priority us)" "snd (aggregate_priority us)"]
  by (simp add: aggregate_priority_forget)

lemma aggregate_priority_total:
  "sum_list (map (\<lambda>(k, e). total_occurrences e) (fst (aggregate_priority us))) = instances us"
proof -
  have "sum_list (map (\<lambda>(k, e). total_occurrences e) (forget pd))
          = sum_list (map (\<lambda>(k, e). total_occurrences e) pd)" for pd
    by (simp add: forget_def comp_def case_prod_unfold truncate_fields)
  then show ?thesis
    using aggregate_simple_total[of us] by (simp add: aggregate_priority_forget)
qed

text \<open>
  Claim C5. For every record sequence and for both copies of the aggregator: in each
  entry the lengths of the URL lists of its values add up to \<open>total_occurrences\<close>,
  and the \<open>total_occurrences\<close> of all entries add up to the number of parameter
  instances of the input records.
\<close>

theorem counting_identities:
  "(\<forall>(k, e)\<in>set (params (process_urls_simple iteration us)).
       sum_list (map (\<lambda>(v, l). int (length l)) (values_map e)) = total_occurrences e)
   \<and> sum_list (map (\<lambda>(k, e). total_occurrences e) (params (process_urls_simple iteration us)))
       = sum_list (map (\<lambda>r. int (length (parameters r))) us)
   \<and> (\<forall>(k, e)\<in>set (params (process_urls_priority iteration us)).
       sum_list (map (\<lambda>(v, l). int (length l)) (values_map e)) = total_occurrences e)
   \<and> sum_list (map (\<lambda>(k, e). total_occurrences e) (params (process_urls_priority iteration us)))
       = sum_list (map (\<lambda>r. int (length (parameters r))) us)"
proof -
  have ps: "params (process_urls_simple iteration us) = fst (aggregate_simple us)"
    by (simp add: process_urls_simple_def split: prod.splits)
  have pp: "params (process_urls_priority iteration us) = fst (aggregate_priority us)"
    by (simp add: process_urls_priority_def split: prod.splits)
  have a: "\<forall>(k, e)\<in>set (fst (aggregate_simple us)).
       sum_list (map (\<lambda>(v, l). int (length l)) (values_map e)) = total_occurrences e"
    using aggregate_simple_consistent[of us]
    by (simp add: consistent_def list_all_iff urls_counted_def)
  have b: "\<forall>(k, e)\<in>set (fst (aggregate_priority us)).
       sum_list (map (\<lambda>(v, l). int (length l)) (values_map e)) = total_occurrences e"
    using aggregate_priority_consistent[of us]
    by (simp add: consistent_def list_all_iff urls_counted_def)
  show ?thesis
    unfolding ps pp
    using a b aggregate_simple_total[of us] aggregate_priority_total[of us]
    by (simp add: instances_def)
qed

text \<open>The identities on two records with six parameter instances over four keys.\<close>

theorem counting_identities_witness:
  "map (\<lambda>(k, e). (k, total_occurrences e,
                   sum_list (map (\<lambda>(v, l). int (length l)) (values_map e))))
       (params (process_urls_priority rev example_records))
     = [(''id'', 2, 2), (''search'', 2, 2), (''debug'', 1, 1), (''token'', 1, 1)]
   \<and> sum_list (map (\<lambda>(k, e). total_occurrences e) (params (process_urls_priority rev example_records))) = 6
   \<and> sum_list (map (\<lambda>r. int (length (parameters r))) example_records) = 6"
proof -
  have "sum_list (map (\<lambda>r. int (length (parameters r))) example_records) = 6"
    by code_simp
  moreover have "map (\<lambda>(k, e). (k, total_occurrences e,
                   sum_list (map (\<lambda>(v, l). int (length l)) (values_map e))))
       (params (process_urls_priority rev example_records))
     = [(''id'', 2, 2), (''search'', 2, 2), (''debug'', 1, 1), (''token'', 1, 1)]"
    by code_simp
  ultimately show ?thesis
    using counting_identities[of rev example_records] by simp
qed


section \<open>Sorting by a key that tells the elements apart\<close>

lemma sort_key_unique:
  fixes f :: "'a \<Rightarrow> 'k::linorder"
  assumes "inj f" "distinct xs" "distinct ys" "set xs = set ys"
  shows "sort_key f xs = sort_key f ys"
proof -
  have d: "distinct (map f (sort_key f zs))" if "distinct zs" for zs
    using that assms(1) by (simp add: distinct_map inj_on_def inj_def)
  have "map f (sort_key f xs) = map f (sort_key f ys)"
    by (rule sorted_distinct_set_unique)
       (simp_all add: sorted_sort_key d assms)
  then show ?thesis using assms(1) by (simp add: inj_map_eq_map)
qed

lemma sorted_wrt_distinct:
  "sorted_wrt P xs \<Longrightarrow> distinct xs \<Longrightarrow> sorted_wrt (\<lambda>a b. P a b \<and> a \<noteq> b) xs"
  by (induction xs) auto

lemma sort_key_order:
  fixes f :: "'a \<Rightarrow> 'k::linorder"
  assumes "distinct xs"
  shows "sorted_wrt (\<lambda>a b. f a \<le> f b \<and> a \<noteq> b) (sort_key f xs)"
proof -
  have "sorted_wrt (\<lambda>a b. f a \<le> f b) (sort_key f xs)"
    using sorted_sort_key[of f xs] by (simp add: sorted_map)
  then show ?thesis using assms by (intro sorted_wrt_distinct) simp_all
qed

lemma inj_sort_key_simple: "inj (sort_key_simple pd)"
  by (simp add: inj_def sort_key_simple_def)

lemma inj_sort_key_priority: "inj (sort_key_priority pd)"
  by (auto simp: inj_def sort_key_priority_def Let_def split: option.splits if_splits)

lemma fst_sort_key_priority: "fst (sort_key_priority pd p) = - occurrences pd p"
  by (simp add: sort_key_priority_def occurrences_def Let_def split: option.splits)

lemma simple_order:
  "sort_key_simple pd a \<le> sort_key_simple pd b \<Longrightarrow> a \<noteq> b \<Longrightarrow>
     occurrences pd b < occurrences pd a \<or> (occurrences pd a = occurrences pd b \<and> a < b)"
  by (auto simp: sort_key_simple_def less_eq_prod_def)

lemma priority_order:
  assumes "sort_key_priority pd a \<le> sort_key_priority pd b" "a \<noteq> b"
  shows "occurrences pd b \<le> occurrences pd a
         \<and> (priority_class pd a = priority_class pd b \<longrightarrow> a < b)"
proof -
  obtain o1 t1 r1 n1 where a: "sort_key_priority pd a = (o1, t1, r1, n1)"
    by (metis prod_cases4)
  obtain o2 t2 r2 n2 where b: "sort_key_priority pd b = (o2, t2, r2, n2)"
    by (metis prod_cases4)
  have n: "n1 = a" "n2 = b"
    using a b by (auto simp: sort_key_priority_def Let_def split: option.splits if_splits)
  have o: "o1 = - occurrences pd a" "o2 = - occurrences pd b"
    using a b fst_sort_key_priority[of pd a] fst_sort_key_priority[of pd b] by simp_all
  from assms(1) have "(o1, t1, r1, n1) \<le> (o2, t2, r2, n2)" by (simp add: a b)
  then show ?thesis
    using assms(2) n o by (auto simp: priority_class_def a b less_eq_prod_def)
qed


lemma params_simple: "params (process_urls_simple h us) = fst (aggregate_simple us)"
  by (simp add: process_urls_simple_def split: prod.splits)

lemma params_priority: "params (process_urls_priority h us) = fst (aggregate_priority us)"
  by (simp add: process_urls_priority_def split: prod.splits)

lemma names_simple:
  "all_param_names (process_urls_simple h us)
     = sort_key (sort_key_simple (fst (aggregate_simple us))) (h (snd (aggregate_simple us)))"
  by (simp add: process_urls_simple_def split: prod.splits)

lemma names_priority:
  "all_param_names (process_urls_priority h us)
     = sort_key (sort_key_priority (fst (aggregate_priority us))) (h (snd (aggregate_priority us)))"
  by (simp add: process_urls_priority_def split: prod.splits)

lemma sorted_names_permutation:
  fixes f :: "string \<Rightarrow> 'k::linorder"
  assumes "iteration_order h" "consistent (pd, ap)"
  shows "distinct (sort_key f (h ap)) \<and> set (sort_key f (h ap)) = fst ` set pd
         \<and> distinct (map fst pd) \<and> length (sort_key f (h ap)) = length pd"
proof -
  from assms(2) have d: "distinct (map fst pd)" and da: "distinct ap"
    and s: "set ap = fst ` set pd" by (simp_all add: consistent_def)
  from assms(1) da have dh: "distinct (h ap)" and sh: "set (h ap) = set ap"
    by (simp_all add: iteration_order_def)
  have "length (h ap) = card (set (h ap))" using dh by (simp add: distinct_card)
  also have "\<dots> = card (set (map fst pd))" using sh s by simp
  also have "\<dots> = length pd" using d distinct_card[of "map fst pd"] by simp
  finally show ?thesis using d dh sh s by simp
qed

text \<open>
  Claim C3. For every record sequence, whatever order the set of names is iterated in,
  \<open>all_param_names\<close> has no duplicates, holds exactly the keys of \<open>params\<close>
  (which are themselves distinct, and as many), and is ordered by descending
  \<open>total_occurrences\<close>, the ascending name deciding last: in the simple policy right
  after the occurrences, in the priority policy after the number of tags and the rank of
  empty-only parameters.
\<close>

theorem all_param_names_sorted_permutation:
  assumes "iteration_order h"
  shows "(let idx = process_urls_simple h us in
            distinct (all_param_names idx)
          \<and> set (all_param_names idx) = fst ` set (params idx)
          \<and> distinct (map fst (params idx))
          \<and> length (all_param_names idx) = length (params idx)
          \<and> sorted_wrt (\<lambda>a b. occurrences (params idx) b < occurrences (params idx) a
                              \<or> (occurrences (params idx) a = occurrences (params idx) b \<and> a < b))
               (all_param_names idx))
       \<and> (let idx = process_urls_priority h us in
            distinct (all_param_names idx)
          \<and> set (all_param_names idx) = fst ` set (params idx)
          \<and> distinct (map fst (params idx))
          \<and> length (all_param_names idx) = length (params idx)
          \<and> sorted_wrt (\<lambda>a b. occurrences (params idx) b \<le> occurrences (params idx) a
                              \<and> (priority_class (params idx) a = priority_class (params idx) b
                                    \<longrightarrow> a < b))
               (all_param_names idx))"
proof -
  obtain pd ap where s: "aggregate_simple us = (pd, ap)" by (cases "aggregate_simple us")
  obtain qd aq where p: "aggregate_priority us = (qd, aq)" by (cases "aggregate_priority us")
  have cs: "consistent (pd, ap)" using aggregate_simple_consistent[of us] by (simp add: s)
  have cp: "consistent (qd, aq)" using aggregate_priority_consistent[of us] by (simp add: p)
  from assms cs have dap: "distinct (h ap)" by (simp add: iteration_order_def consistent_def)
  from assms cp have daq: "distinct (h aq)" by (simp add: iteration_order_def consistent_def)
  have os: "sorted_wrt (\<lambda>a b. occurrences pd b < occurrences pd a
                              \<or> (occurrences pd a = occurrences pd b \<and> a < b))
               (sort_key (sort_key_simple pd) (h ap))"
    using sort_key_order[OF dap, of "sort_key_simple pd"]
    by (rule sorted_wrt_mono_rel[rotated]) (use simple_order in blast)
  have op: "sorted_wrt (\<lambda>a b. occurrences qd b \<le> occurrences qd a
                              \<and> (priority_class qd a = priority_class qd b \<longrightarrow> a < b))
               (sort_key (sort_key_priority qd) (h aq))"
    using sort_key_order[OF daq, of "sort_key_priority qd"]
    by (rule sorted_wrt_mono_rel[rotated]) (use priority_order in blast)
  show ?thesis
    unfolding Let_def params_simple params_priority names_simple names_priority s p fst_conv snd_conv
    using sorted_names_permutation[OF assms cs, of "sort_key_simple pd"]
          sorted_names_permutation[OF assms cp, of "sort_key_priority qd"] os op
    by simp
qed

text \<open>The orderings of both policies on the example records, iterated in reverse.\<close>

theorem all_param_names_sorted_permutation_witness:
  "all_param_names (process_urls_simple rev example_records)
     = [''id'', ''search'', ''debug'', ''token'']
   \<and> all_param_names (process_urls_priority rev example_records)
     = [''id'', ''search'', ''token'', ''debug'']
   \<and> map fst (params (process_urls_simple rev example_records))
     = [''id'', ''search'', ''debug'', ''token'']
   \<and> map (occurrences (params (process_urls_simple rev example_records)))
       (all_param_names (process_urls_simple rev example_records)) = [2, 2, 1, 1]
   \<and> sorted_wrt (\<lambda>a b. occurrences (params (process_urls_simple rev example_records)) b
                          < occurrences (params (process_urls_simple rev example_records)) a
                        \<or> (occurrences (params (process_urls_simple rev example_records)) a
                             = occurrences (params (process_urls_simple rev example_records)) b
                            \<and> a < b))
       (all_param_names (process_urls_simple rev example_records))"
proof -
  have h: "iteration_order rev" by (simp add: iteration_order_def)
  have 1: "all_param_names (process_urls_simple rev example_records)
     = [''id'', ''search'', ''debug'', ''token'']" by code_simp
  have 2: "all_param_names (process_urls_priority rev example_records)
     = [''id'', ''search'', ''token'', ''debug'']" by code_simp
  have 3: "map fst (params (process_urls_simple rev example_records))
     = [''id'', ''search'', ''debug'', ''token'']" by code_simp
  have 4: "map (occurrences (params (process_urls_simple rev example_records)))
       (all_param_names (process_urls_simple rev example_records)) = [2, 2, 1, 1]" by code_simp
  from all_param_names_sorted_permutation[OF h, of example_records]
  have "sorted_wrt (\<lambda>a b. occurrences (params (process_urls_simple rev example_records)) b
                          < occurrences (params (process_urls_simple rev example_records)) a
                        \<or> (occurrences (params (process_urls_simple rev example_records)) a
                             = occurrences (params (process_urls_simple rev example_records)) b
                            \<and> a < b))
       (all_param_names (process_urls_simple rev example_records))"
    by (simp add: Let_def)
  with 1 2 3 4 show ?thesis by blast
qed

text \<open>
  Claim C9. The only part of the aggregation that can differ between two runs is the order
  in which the set \<open>all_params\<close> is iterated. For any two such orders the whole index
  is the same, for both policies; so is the index computed from the records parsed from
  one document.
\<close>

theorem aggregation_is_deterministic:
  assumes "iteration_order h1" "iteration_order h2"
  shows "process_urls_simple h1 us = process_urls_simple h2 us
       \<and> process_urls_priority h1 us = process_urls_priority h2 us
       \<and> process_urls_simple h1 (parse_burp_html_app soup)
           = process_urls_simple h2 (parse_burp_html_app soup)
       \<and> process_urls_priority h1 (parse_burp_html_cleaned soup)
           = process_urls_priority h2 (parse_burp_html_cleaned soup)"
proof -
  have s: "process_urls_simple h1 rs = process_urls_simple h2 rs" for rs
  proof -
    obtain pd ap where a: "aggregate_simple rs = (pd, ap)" by (cases "aggregate_simple rs")
    have "distinct ap" using aggregate_simple_consistent[of rs] by (simp add: a consistent_def)
    with assms have "distinct (h1 ap)" "distinct (h2 ap)" "set (h1 ap) = set (h2 ap)"
      by (simp_all add: iteration_order_def)
    then have "sort_key (sort_key_simple pd) (h1 ap) = sort_key (sort_key_simple pd) (h2 ap)"
      by (intro sort_key_unique inj_sort_key_simple)
    then show ?thesis by (simp add: process_urls_simple_def a)
  qed
  have p: "process_urls_priority h1 rs = process_urls_priority h2 rs" for rs
  proof -
    obtain pd ap where a: "aggregate_priority rs = (pd, ap)" by (cases "aggregate_priority rs")
    have "distinct ap" using aggregate_priority_consistent[of rs] by (simp add: a consistent_def)
    with assms have "distinct (h1 ap)" "distinct (h2 ap)" "set (h1 ap) = set (h2 ap)"
      by (simp_all add: iteration_order_def)
    then have "sort_key (sort_key_priority pd) (h1 ap) = sort_key (sort_key_priority pd) (h2 ap)"
      by (intro sort_key_unique inj_sort_key_priority)
    then show ?thesis by (simp add: process_urls_priority_def a)
  qed
  from s p show ?thesis by simp
qed

text \<open>Insertion order and its reverse give the same index on the example records.\<close>

theorem aggregation_is_deterministic_witness:
  "process_urls_simple (\<lambda>xs. xs) example_records = process_urls_simple rev example_records
   \<and> process_urls_priority (\<lambda>xs. xs) example_records = process_urls_priority rev example_records
   \<and> all_param_names (process_urls_priority rev example_records)
       = [''id'', ''search'', ''token'', ''debug'']"
proof -
  have 1: "iteration_order (\<lambda>xs. xs)" by (simp add: iteration_order_def)
  have 2: "iteration_order rev" by (simp add: iteration_order_def)
  have 3: "all_param_names (process_urls_priority rev example_records)
     = [''id'', ''search'', ''token'', ''debug'']" by code_simp
  show ?thesis
    using aggregation_is_deterministic[OF 1 2, of example_records] 3 by simp
qed


section \<open>Parameter lines and empty values\<close>

lemma map_of_append_url:
  "map_of (append_url v u vm) w =
     (if w = v then Some ((case map_of vm v of None \<Rightarrow> [] | Some l \<Rightarrow> l) @ [u])
      else map_of vm w)"
  by (simp add: append_url_def update_conv')

lemma add_param_priority_lookup:
  "map_of (fst (add_param_priority u (pd, ap) p)) k =
     (if k = key p then
        (let e = (case map_of pd (key p) of
                    None \<Rightarrow> \<lparr>values_map = [], total_occurrences = 0,
                              auto_tags = get_auto_tags (key p), has_empty_values = False\<rparr>
                  | Some e \<Rightarrow> e)
         in Some (e\<lparr>values_map := append_url (value_key p) u (values_map e),
                     has_empty_values := (if val p = [] then True else has_empty_values e),
                     total_occurrences := total_occurrences e + 1\<rparr>))
      else map_of pd k)"
  by (simp add: add_param_priority_def Let_def update_conv')

lemma step_keeps:
  assumes "recorded_empty (fst acc) k u"
  shows "recorded_empty (fst (add_param_priority u' acc p)) k u"
proof -
  obtain pd ap where acc: "acc = (pd, ap)" by (cases acc)
  from assms obtain e l where e: "map_of pd k = Some e" "has_empty_values e"
    "map_of (values_map e) ''(empty)'' = Some l" "u \<in> set l"
    by (auto simp: recorded_empty_def acc)
  show ?thesis
  proof (cases "k = key p")
    case False
    with e show ?thesis
      unfolding acc recorded_empty_def add_param_priority_lookup by auto
  next
    case True
    with e show ?thesis
      unfolding acc recorded_empty_def add_param_priority_lookup
      by (auto simp: Let_def map_of_append_url)
  qed
qed

lemma step_adds:
  assumes "val p = []"
  shows "recorded_empty (fst (add_param_priority u acc p)) (key p) u"
proof -
  obtain pd ap where acc: "acc = (pd, ap)" by (cases acc)
  show ?thesis
    unfolding acc recorded_empty_def add_param_priority_lookup using assms
    by (simp add: Let_def map_of_append_url value_key_def)
qed

lemma record_keeps:
  "recorded_empty (fst acc) k u \<Longrightarrow>
     recorded_empty (fst (foldl (add_param_priority u') acc ps)) k u"
  by (induction ps arbitrary: acc) (simp_all add: step_keeps)

lemma record_adds:
  "p \<in> set ps \<Longrightarrow> val p = [] \<Longrightarrow>
     recorded_empty (fst (foldl (add_param_priority u) acc ps)) (key p) u"
proof (induction ps arbitrary: acc)
  case Nil
  then show ?case by simp
next
  case (Cons q ps)
  show ?case
  proof (cases "p = q")
    case True
    with Cons.prems show ?thesis by (simp add: record_keeps step_adds)
  next
    case False
    with Cons show ?thesis by simp
  qed
qed

lemma loop_keeps:
  "recorded_empty (fst acc) k u \<Longrightarrow>
     recorded_empty
       (fst (foldl (\<lambda>acc url_obj. foldl (add_param_priority (url url_obj)) acc
                      (parameters url_obj)) acc us)) k u"
  by (induction us arbitrary: acc) (simp_all add: record_keeps)

lemma loop_adds:
  "r \<in> set us \<Longrightarrow> p \<in> set (parameters r) \<Longrightarrow> val p = [] \<Longrightarrow>
     recorded_empty
       (fst (foldl (\<lambda>acc url_obj. foldl (add_param_priority (url url_obj)) acc
                      (parameters url_obj)) acc us)) (key p) (url r)"
proof (induction us arbitrary: acc)
  case Nil
  then show ?case by simp
next
  case (Cons q us)
  show ?case
  proof (cases "r = q")
    case True
    with Cons.prems show ?thesis by (simp add: loop_keeps record_adds)
  next
    case False
    with Cons show ?thesis by simp
  qed
qed

text \<open>
  Claim C7, as the code has it. A parameter line whose text holds \<open>=\<close> is split at
  the first one, the stripped left side being the key and the stripped right side the
  value. A line with a text and no \<open>=\<close> becomes a key with the empty value. A line
  whose stripped text is empty yields no parameter. After aggregation (the copy that keeps
  \<open>has_empty_values\<close>) every parameter instance with an empty value has its URL listed
  under \<open>(empty)\<close> in the values of its key's entry, and that entry has
  \<open>has_empty_values\<close> set.
\<close>

theorem parameter_line_split:
  "(CHR ''='' \<notin> set left \<longrightarrow>
      param_of_text (left @ CHR ''='' # right)
        = Some \<lparr>key = py_strip left, val = py_strip right\<rparr>)
   \<and> (t \<noteq> [] \<and> CHR ''='' \<notin> set t \<longrightarrow>
        param_of_text t = Some \<lparr>key = py_strip t, val = []\<rparr>)
   \<and> param_of_text [] = None
   \<and> (r \<in> set us \<and> p \<in> set (parameters r) \<and> val p = [] \<longrightarrow>
        (\<exists>e l. map_of (params (process_urls_priority h us)) (key p) = Some e
               \<and> has_empty_values e
               \<and> map_of (values_map e) ''(empty)'' = Some l \<and> url r \<in> set l))"
proof -
  have "recorded_empty (params (process_urls_priority h us)) (key p) (url r)"
    if "r \<in> set us" "p \<in> set (parameters r)" "val p = []"
    unfolding params_priority aggregate_priority_def using that by (rule loop_adds)
  then show ?thesis
    using param_of_text_split[of left right] param_of_text_bare[of t] param_of_text_empty
    unfolding recorded_empty_def by blast
qed

text \<open>The lines \<open>debug\<close> and \<open>id = 1\<close> under one URL, parsed and aggregated.\<close>

theorem parameter_line_split_witness:
  "parse_burp_html_cleaned (document_of [example_debug_list])
     = [\<lparr>url = ''http://x/a'',
         parameters = [\<lparr>key = ''debug'', val = []\<rparr>, \<lparr>key = ''id'', val = ''1''\<rparr>]\<rparr>]
   \<and> param_of_text ''id = 1'' = Some \<lparr>key = ''id'', val = ''1''\<rparr>
   \<and> param_of_text ''debug'' = Some \<lparr>key = ''debug'', val = []\<rparr>
   \<and> map_of (params (process_urls_priority rev
                (parse_burp_html_cleaned (document_of [example_debug_list])))) ''debug''
       = Some \<lparr>values_map = [(''(empty)'', [''http://x/a''])], total_occurrences = 1,
               auto_tags = [''Debug''], has_empty_values = True\<rparr>
   \<and> (\<exists>e l. map_of (params (process_urls_priority rev
                (parse_burp_html_cleaned (document_of [example_debug_list])))) ''debug'' = Some e
          \<and> has_empty_values e
          \<and> map_of (values_map e) ''(empty)'' = Some l \<and> ''http://x/a'' \<in> set l)"
proof -
  let ?r = "\<lparr>url = ''http://x/a'',
         parameters = [\<lparr>key = ''debug'', val = []\<rparr>, \<lparr>key = ''id'', val = ''1''\<rparr>]\<rparr>"
  let ?p = "\<lparr>key = ''debug'', val = []\<rparr>"
  have 1: "parse_burp_html_cleaned (document_of [example_debug_list]) = [?r]"
    by code_simp
  have 2: "py_strip ''id '' = ''id''" "py_strip '' 1'' = ''1''" "py_strip ''debug'' = ''debug''"
    by code_simp+
  have 3: "map_of (params (process_urls_priority rev [?r])) ''debug''
       = Some \<lparr>values_map = [(''(empty)'', [''http://x/a''])], total_occurrences = 1,
               auto_tags = [''Debug''], has_empty_values = True\<rparr>"
    by code_simp
  show ?thesis
    using parameter_line_split[of "''id ''" "'' 1''" "''debug''" ?r "[?r]" ?p rev] 2 3
    unfolding 1 by simp
qed

text \<open>
  Claim C7, as the specification states it, fails for a blank line: it holds no
  \<open>=\<close>, yet it becomes no key, and a URL whose only line is blank is dropped.
\<close>

theorem blank_line_gives_no_parameter:
  "CHR ''='' \<notin> set (get_text_strip (Tag ''li'' [NavigableString '' '']))
   \<and> param_lines [Tag ''li'' [NavigableString '' '']] = []
   \<and> parse_burp_html_cleaned
        (document_of [Tag ''ul'' [Tag ''li'' [NavigableString ''http://x/a''],
                                  Tag ''ul'' [Tag ''li'' [NavigableString '' '']]]]) = []"
  by code_simp


section \<open>The relationship engine: results\<close>

lemma counted_increment:
  "counted (increment co k) k' = counted co k' + (if k' = k then 1 else 0)"
  by (simp add: counted_def increment_def update_conv')

lemma keys_increment: "fst ` set (increment co k) = insert k (fst ` set co)"
  by (simp add: increment_def dom_update)

lemma distinct_increment: "distinct (map fst co) \<Longrightarrow> distinct (map fst (increment co k))"
  by (simp add: increment_def distinct_update)

lemma inner_counted:
  "counted (foldl (\<lambda>co k. if k \<noteq> t then increment co k else co) co ks) k'
     = counted co k' + (if k' = t then 0 else int (count_list ks k'))"
  by (induction ks arbitrary: co) (auto simp: counted_increment)

lemma inner_keys:
  "fst ` set (foldl (\<lambda>co k. if k \<noteq> t then increment co k else co) co ks)
     = fst ` set co \<union> (set ks - {t})"
  by (induction ks arbitrary: co) (auto simp: keys_increment)

lemma inner_distinct:
  "distinct (map fst co) \<Longrightarrow>
     distinct (map fst (foldl (\<lambda>co k. if k \<noteq> t then increment co k else co) co ks))"
  by (induction ks arbitrary: co) (auto simp: distinct_increment)

lemma count_record_counted:
  "counted (count_record t co r) k'
     = counted co k' + (if k' = t \<or> t \<notin> set (param_keys_of r) then 0
                        else int (count_list (param_keys_of r) k'))"
  by (simp add: count_record_def Let_def inner_counted param_keys_of_def)

lemma count_record_keys: "t \<notin> fst ` set co \<Longrightarrow> t \<notin> fst ` set (count_record t co r)"
  by (simp add: count_record_def Let_def inner_keys)

lemma count_record_distinct:
  "distinct (map fst co) \<Longrightarrow> distinct (map fst (count_record t co r))"
  by (simp add: count_record_def Let_def inner_distinct)

lemma count_record_absent:
  "t \<notin> set (param_keys_of r) \<Longrightarrow> count_record t co r = co"
  by (simp add: count_record_def param_keys_of_def)

lemma loop_counted:
  "counted (foldl (count_record t) co us) k'
     = counted co k' + (if k' = t then 0 else partner_instances us t k')"
  by (induction us arbitrary: co) (auto simp: count_record_counted partner_instances_def)

lemma loop_keys: "t \<notin> fst ` set co \<Longrightarrow> t \<notin> fst ` set (foldl (count_record t) co us)"
  by (induction us arbitrary: co) (simp_all add: count_record_keys)

lemma loop_distinct:
  "distinct (map fst co) \<Longrightarrow> distinct (map fst (foldl (count_record t) co us))"
  by (induction us arbitrary: co) (simp_all add: count_record_distinct)

lemma loop_absent:
  "\<forall>r\<in>set us. t \<notin> set (param_keys_of r) \<Longrightarrow> foldl (count_record t) co us = co"
  by (induction us arbitrary: co) (simp_all add: count_record_absent)

lemma item_count:
  assumes "(p, c) \<in> set (foldl (count_record t) [] us)"
  shows "p \<noteq> t \<and> c = partner_instances us t p"
proof -
  have d: "distinct (map fst (foldl (count_record t) [] us))" by (rule loop_distinct) simp
  have "t \<notin> fst ` set (foldl (count_record t) [] us)" by (rule loop_keys) simp
  with assms have n: "p \<noteq> t" by force
  from d assms have "map_of (foldl (count_record t) [] us) p = Some c" by simp
  then have "counted (foldl (count_record t) [] us) p = c" by (simp add: counted_def)
  then have "c = partner_instances us t p"
    using n loop_counted[of t "[]" us p] by (simp add: counted_def)
  with n show ?thesis by simp
qed

lemma set_sorted_reverse: "set (sorted_reverse f xs) = set xs"
  by (simp add: sorted_reverse_def)

lemma sorted_reverse_descending:
  "sorted_wrt (\<lambda>a b. f b \<le> f a) (sorted_reverse f xs)"
  using sorted_sort_key[of f "rev xs"]
  by (simp add: sorted_reverse_def sorted_wrt_rev sorted_map)

lemma result_items:
  assumes "r \<in> set (get_co_occurrence us t)"
  shows "(param r, count r) \<in> set (foldl (count_record t) [] us)"
proof -
  from assms obtain p c where
    pc: "(p, c) \<in> set (take 10 (sorted_reverse snd (foldl (count_record t) [] us)))"
    and r: "r = \<lparr>param = p, count = c, partner_tags = get_auto_tags p\<rparr>"
    by (auto simp: get_co_occurrence_def)
  from pc have "(p, c) \<in> set (sorted_reverse snd (foldl (count_record t) [] us))"
    by (rule in_set_takeD)
  then show ?thesis by (simp add: r set_sorted_reverse)
qed

lemma single_occurrences:
  assumes "\<forall>r\<in>set us. count_list (param_keys_of r) p \<le> 1"
  shows "partner_instances us t p = records_with_both us t p"
  using assms
proof (induction us)
  case Nil
  then show ?case by (simp add: partner_instances_def records_with_both_def)
next
  case (Cons r us)
  then have ih: "partner_instances us t p = records_with_both us t p" by simp
  from Cons.prems have le: "count_list (param_keys_of r) p \<le> 1" by simp
  have c: "int (count_list (param_keys_of r) p) = (if p \<in> set (param_keys_of r) then 1 else 0)"
  proof (cases "p \<in> set (param_keys_of r)")
    case True
    then have "count_list (param_keys_of r) p \<noteq> 0" by (simp add: count_list_0_iff)
    then have "count_list (param_keys_of r) p > 0" by simp
    with le True show ?thesis by simp
  next
    case False
    then show ?thesis by (simp add: count_list_0_iff)
  qed
  show ?case
    using ih c by (simp add: partner_instances_def records_with_both_def)
qed

text \<open>
  Claim C1, as the code has it. The count reported for a partner is the number of
  parameter instances carrying the partner's key in the records whose keys contain the
  target: the loop runs over the list of keys of a record, repeated keys included. When
  no record repeats the partner's key, this is the number of records that hold both the
  target and the partner.
\<close>

theorem co_occurrence_counts_instances:
  "r \<in> set (get_co_occurrence us target_param) \<longrightarrow>
     count r = partner_instances us target_param (param r)
     \<and> ((\<forall>u\<in>set us. count_list (param_keys_of u) (param r) \<le> 1) \<longrightarrow>
          count r = records_with_both us target_param (param r))"
proof
  assume "r \<in> set (get_co_occurrence us target_param)"
  then have "(param r, count r) \<in> set (foldl (count_record target_param) [] us)"
    by (rule result_items)
  then have "count r = partner_instances us target_param (param r)"
    using item_count by blast
  then show "count r = partner_instances us target_param (param r)
     \<and> ((\<forall>u\<in>set us. count_list (param_keys_of u) (param r) \<le> 1) \<longrightarrow>
          count r = records_with_both us target_param (param r))"
    by (simp add: single_occurrences)
qed

text \<open>Two URLs that both carry \<open>id\<close> and \<open>token\<close>: the pair is counted twice.\<close>

theorem co_occurrence_counts_instances_witness:
  "get_co_occurrence example_two_urls ''id''
     = [\<lparr>param = ''token'', count = 2, partner_tags = [''Auth'']\<rparr>]
   \<and> partner_instances example_two_urls ''id'' ''token'' = 2
   \<and> records_with_both example_two_urls ''id'' ''token'' = 2"
proof -
  let ?r = "\<lparr>param = ''token'', count = 2, partner_tags = [''Auth'']\<rparr>"
  have g: "get_co_occurrence example_two_urls ''id'' = [?r]" by code_simp
  have s: "\<forall>u\<in>set example_two_urls. count_list (param_keys_of u) ''token'' \<le> 1"
    by code_simp
  show ?thesis
    using co_occurrence_counts_instances[of ?r example_two_urls "''id''"] g s by simp
qed

text \<open>
  Claim C1, as the specification states it, fails when a record repeats the partner's
  key: one record with \<open>id\<close> and two \<open>tok\<close> parameters reports the count 2,
  while one record holds both keys.
\<close>

theorem repeated_partner_counts_twice:
  "get_co_occurrence example_repeated_key ''id''
     = [\<lparr>param = ''tok'', count = 2, partner_tags = []\<rparr>]
   \<and> records_with_both example_repeated_key ''id'' ''tok'' = 1"
  by code_simp

text \<open>
  Claim C4. For every record sequence and target, the result of \<open>get_co_occurrence\<close>
  never names the target, has at most ten entries, is in non-increasing order of count,
  and is empty when no record has the target among its keys.
\<close>

theorem co_occurrence_shape:
  "target_param \<notin> param ` set (get_co_occurrence us target_param)
   \<and> length (get_co_occurrence us target_param) \<le> 10
   \<and> sorted_wrt (\<lambda>a b. count b \<le> count a) (get_co_occurrence us target_param)
   \<and> ((\<forall>r\<in>set us. target_param \<notin> key ` set (parameters r)) \<longrightarrow>
        get_co_occurrence us target_param = [])"
proof -
  have a: "target_param \<notin> param ` set (get_co_occurrence us target_param)"
  proof
    assume "target_param \<in> param ` set (get_co_occurrence us target_param)"
    then obtain r where r: "r \<in> set (get_co_occurrence us target_param)" "param r = target_param"
      by auto
    from result_items[OF r(1)] item_count show False using r(2) by blast
  qed
  have b: "length (get_co_occurrence us target_param) \<le> 10"
    by (simp add: get_co_occurrence_def)
  have "sorted_wrt (\<lambda>a b. snd b \<le> snd a)
          (take 10 (sorted_reverse snd (foldl (count_record target_param) [] us)))"
    by (intro sorted_wrt_take sorted_reverse_descending)
  then have c: "sorted_wrt (\<lambda>a b. count b \<le> count a) (get_co_occurrence us target_param)"
    by (simp add: get_co_occurrence_def sorted_wrt_map case_prod_unfold)
  have d: "get_co_occurrence us target_param = []"
    if "\<forall>r\<in>set us. target_param \<notin> key ` set (parameters r)"
  proof -
    from that have "\<forall>r\<in>set us. target_param \<notin> set (param_keys_of r)"
      by (simp add: param_keys_of_def)
    then have "foldl (count_record target_param) [] us = []" by (rule loop_absent)
    then show ?thesis by (simp add: get_co_occurrence_def sorted_reverse_def)
  qed
  from a b c d show ?thesis by blast
qed

text \<open>The result for a target that occurs and for one that does not.\<close>

theorem co_occurrence_shape_witness:
  "get_co_occurrence example_records ''id''
     = [\<lparr>param = ''search'', count = 2, partner_tags = [''XSS'']\<rparr>,
        \<lparr>param = ''debug'', count = 1, partner_tags = [''Debug'']\<rparr>,
        \<lparr>param = ''token'', count = 1, partner_tags = [''Auth'']\<rparr>]
   \<and> get_co_occurrence example_records ''zz'' = []
   \<and> ''id'' \<notin> param ` set (get_co_occurrence example_records ''id'')"
proof -
  have g: "get_co_occurrence example_records ''id''
     = [\<lparr>param = ''search'', count = 2, partner_tags = [''XSS'']\<rparr>,
        \<lparr>param = ''debug'', count = 1, partner_tags = [''Debug'']\<rparr>,
        \<lparr>param = ''token'', count = 1, partner_tags = [''Auth'']\<rparr>]" by code_simp
  have z: "\<forall>r\<in>set example_records. ''zz'' \<notin> key ` set (parameters r)" by code_simp
  show ?thesis
    using co_occurrence_shape[of "''id''" example_records]
          co_occurrence_shape[of "''zz''" example_records] g z by simp
qed


end
